theory Spec2Isabelle
  imports Main
begin

section \<open>JavaScript values the repeater computes with\<close>

text \<open>
  The delay field \<open>_timeout\<close> holds a JavaScript number, a double. The model keeps a
  number exactly while it is a whole number of magnitude at most \<open>2^53\<close>: every such
  integer is a double, and a product of two of them that stays in this range is
  computed exactly. Beyond the range the code rounds (or overflows); there the model
  keeps the integer that was to be represented, marked \<open>Rounded\<close>, and says nothing of
  which double it became. \<open>NaN\<close> is what \<open>parseInt\<close> gives for a string without digits.
  A delay with a fractional part can only come from a numeric argument of \<open>every\<close>;
  such an argument is outside the model.
\<close>

datatype number = Num int | NaN | Rounded int

definition toNumber :: "int \<Rightarrow> number" where
  "toNumber n = (if \<bar>n\<bar> \<le> 9007199254740992 then Num n else Rounded n)"

text \<open>\<open>x * k\<close> for a numeric literal \<open>k\<close>: \<open>NaN\<close> is absorbing.\<close>

fun times_num :: "number \<Rightarrow> int \<Rightarrow> number" where
  "times_num (Num n) k = toNumber (n * k)"
| "times_num NaN k = NaN"
| "times_num (Rounded n) k = Rounded (n * k)"

text \<open>
  \<open>if (this._timeout) await sleep(this._timeout)\<close>: the delay that is slept, if any.
  An unassigned field (\<open>undefined\<close>), \<open>NaN\<close> and \<open>0\<close> are falsy. A delay beyond \<open>2^53\<close>
  is recorded by the integer it stands for.
\<close>

fun delay :: "number option \<Rightarrow> int option" where
  "delay None = None"
| "delay (Some NaN) = None"
| "delay (Some (Num n)) = (if n \<noteq> 0 then Some n else None)"
| "delay (Some (Rounded n)) = Some n"

subsection \<open>Strings, and the built-in \<open>parseInt\<close> with no radix argument\<close>

text \<open>
  A string of the language is a sequence of UTF-16 code units, here natural numbers;
  \<open>utf16\<close> turns a literal of the theory into one.
\<close>

type_synonym jsstring = "nat list"

definition utf16 :: "string \<Rightarrow> jsstring" where
  "utf16 s = map of_char s"

text \<open>
  \<open>parseInt\<close> is a built-in of the language, modelled after ECMAScript: leading white
  space and line terminators are skipped, one sign is read, a prefix \<open>0x\<close> or \<open>0X\<close>
  selects radix 16 (radix 10 otherwise), the longest run of digits of that radix is
  read, and everything after it is ignored. No digit at all gives \<open>NaN\<close>; otherwise
  the integer read becomes a number.
\<close>

definition isWhiteSpace :: "nat \<Rightarrow> bool" where
  "isWhiteSpace k =
     (k \<in> set [0x09, 0x0A, 0x0B, 0x0C, 0x0D, 0x20, 0xA0, 0x1680, 0x2028, 0x2029,
                0x202F, 0x205F, 0x3000, 0xFEFF] \<or> (0x2000 \<le> k \<and> k \<le> 0x200A))"

definition digitValue :: "nat \<Rightarrow> nat" where
  "digitValue k =
     (if 48 \<le> k \<and> k \<le> 57 then k - 48
      else if 97 \<le> k \<and> k \<le> 122 then k - 87
      else if 65 \<le> k \<and> k \<le> 90 then k - 55
      else 36)"

definition isRadixDigit :: "nat \<Rightarrow> nat \<Rightarrow> bool" where
  "isRadixDigit R k = (digitValue k < R)"

definition digitsValue :: "nat \<Rightarrow> jsstring \<Rightarrow> nat" where
  "digitsValue R Z = foldl (\<lambda>a k. a * R + digitValue k) 0 Z"

definition parseInt :: "jsstring \<Rightarrow> number" where
  "parseInt str =
     (let S1 = dropWhile isWhiteSpace str;
          sign = (if take 1 S1 = utf16 ''-'' then - 1 else 1 :: int);
          S2 = (if take 1 S1 = utf16 ''-'' \<or> take 1 S1 = utf16 ''+'' then drop 1 S1 else S1);
          hex = (take 2 S2 = utf16 ''0x'' \<or> take 2 S2 = utf16 ''0X'');
          R = (if hex then 16 else 10);
          S3 = (if hex then drop 2 S2 else S2);
          Z = takeWhile (isRadixDigit R) S3
      in if Z = [] then NaN else toNumber (sign * int (digitsValue R Z)))"

text \<open>\<open>String.prototype.endsWith\<close>.\<close>

definition endsWith :: "jsstring \<Rightarrow> jsstring \<Rightarrow> bool" where
  "endsWith s t = (length t \<le> length s \<and> drop (length s - length t) s = t)"

section \<open>The Repeater and its environment\<close>

datatype status = Idle | Running | Complete

text \<open>
  What a call can throw: the \<open>TypeError\<close> of reading a property of \<open>undefined\<close>, and
  whatever the user's action throws (or rejects with).
\<close>

datatype error = TypeError | UserError string

text \<open>
  The fields of \<open>class Repeater\<close>. Dates are their \<open>getTime()\<close> values in milliseconds;
  a field that was never assigned is \<open>None\<close>. \<open>_stopped\<close> is only ever tested for
  truthiness, so unassigned is \<open>False\<close>. The action works on a user state \<open>'u\<close> (the
  variables its closure captures): called with the index, it changes the user state
  and its promise resolves, or it fails (it throws, or its promise rejects).
\<close>

record 'u repeater =
  status :: status
  startDate :: "int option"
  endDate :: "int option"
  runTime :: "int option"
  repeated :: int
  timeout :: "number option"
  stopped :: bool
  action :: "int \<Rightarrow> 'u \<Rightarrow> error + 'u"

text \<open>
  The trace of what happened, in order: each delay slept, each call of the action
  with its argument, each failure of the action, each call of the predicate with its
  result.
\<close>

datatype event = Slept int | Invoked int | Raised error | Checked bool

text \<open>
  A suspended \<open>run\<close> of \<open>infinite()\<close>: waiting in \<open>sleep(t)\<close>, waiting for the action's
  promise (\<open>Awaiting\<close> one that resolves, \<open>Rejecting e\<close> one that rejects with \<open>e\<close>: the
  loop learns which only when it is resumed), or over (returned, or rejected).
\<close>

datatype loop = Sleeping int | Awaiting | Rejecting error | Finished | Failed error

text \<open>
  The argument of \<open>until\<close>: a function of no argument reading the user state, or
  (the source tests \<open>typeof finished\<close>) any other value, of which only the truthiness
  is read.
\<close>

datatype 'u finished = Fun "'u \<Rightarrow> bool" | Val bool

text \<open>
  A call of \<open>repeat\<close> or \<open>until\<close> that is under way: which \<open>run\<close> it is, with what
  the closure holds (the count still to go, the argument of \<open>until\<close>), and where it
  is suspended: in \<open>sleep(t)\<close>, on the action's promise (one that resolves, one that
  rejects), on the way out (the last \<open>run\<close> has returned and the \<open>await run()\<close> above it
  are being resumed, \<open>_complete\<close> still to come), or settled (the driver's promise
  resolved, or rejected).
\<close>

datatype 'u run = RepeatRun int | UntilRun "'u finished"

datatype 'u driver =
  DSleeping "'u run" int | DAwaiting "'u run" | DRejecting error | DUnwinding
  | DReturned | DThrew error

text \<open>
  What the instance lives in: the user state, the clock behind \<open>new Date()\<close>, the
  trace, the background loops started by \<open>infinite()\<close> and the calls of \<open>repeat\<close> and
  \<open>until\<close> that were started and not awaited to their end.
\<close>

record 'u system = "'u repeater" +
  world :: 'u
  clock :: int
  trace :: "event list"
  loops :: "loop list"
  drivers :: "'u driver list"

text \<open>\<open>new Repeater(action)\<close>, in a user state \<open>u\<close> at time \<open>t\<close>.\<close>

definition new_Repeater :: "(int \<Rightarrow> 'u \<Rightarrow> error + 'u) \<Rightarrow> 'u \<Rightarrow> int \<Rightarrow> 'u system" where
  "new_Repeater a u t =
     \<lparr> status = Idle, startDate = None, endDate = None, runTime = None,
       repeated = 0, timeout = None, stopped = False, action = a,
       world = u, clock = t, trace = [], loops = [], drivers = [] \<rparr>"

text \<open>
  The result of a call: it returned (a promise resolved), it threw (a promise
  rejected), or, for a driver, it has not settled within the given number of
  iterations. Each carries the state reached.
\<close>

datatype 'u outcome = Returned "'u system" | Threw error "'u system" | Pending "'u system"

fun state_of :: "'u outcome \<Rightarrow> 'u system" where
  "state_of (Returned c) = c"
| "state_of (Threw e c) = c"
| "state_of (Pending c) = c"

fun returned :: "'u outcome \<Rightarrow> bool" where
  "returned (Returned c) = True"
| "returned (Threw e c) = False"
| "returned (Pending c) = False"

fun threw :: "'u outcome \<Rightarrow> error option" where
  "threw (Returned c) = None"
| "threw (Threw e c) = Some e"
| "threw (Pending c) = None"

text \<open>\<open>await p; rest\<close>: the rest runs only when \<open>p\<close> resolves.\<close>

fun await :: "'u outcome \<Rightarrow> ('u system \<Rightarrow> 'u outcome) \<Rightarrow> 'u outcome" where
  "await (Returned c) k = k c"
| "await (Threw e c) k = Threw e c"
| "await (Pending c) k = Pending c"

text \<open>The calls of the action in a trace, by their arguments.\<close>

fun calls :: "event list \<Rightarrow> int list" where
  "calls [] = []"
| "calls (Invoked n # es) = n # calls es"
| "calls (e # es) = calls es"

section \<open>The private methods\<close>

text \<open>
  \<open>sleep(t)\<close> of \<open>@stater/sleep\<close>: the timer fires after \<open>t\<close> milliseconds (a negative
  delay counts as none).
\<close>

definition sleep :: "int \<Rightarrow> 'u system \<Rightarrow> 'u system" where
  "sleep t c = c\<lparr> clock := clock c + max 0 t, trace := trace c @ [Slept t] \<rparr>"

text \<open>\<open>await this.action(this._repeated)\<close>, awaited to its end.\<close>

definition invoke :: "'u system \<Rightarrow> 'u outcome" where
  "invoke c =
     (let c1 = c\<lparr> trace := trace c @ [Invoked (repeated c)] \<rparr> in
      case action c (repeated c) (world c) of
        Inl e \<Rightarrow> Threw e (c1\<lparr> trace := trace c1 @ [Raised e] \<rparr>)
      | Inr u \<Rightarrow> Returned (c1\<lparr> world := u \<rparr>))"

definition doAction :: "'u system \<Rightarrow> 'u outcome" where
  "doAction c =
     (let c1 = c\<lparr> repeated := repeated c + 1 \<rparr>;
          c2 = (case delay (timeout c1) of Some t \<Rightarrow> sleep t c1 | None \<Rightarrow> c1)
      in invoke c2)"

text \<open>
  \<open>_complete\<close>: the three assignments happen, then \<open>this.startDate.getTime()\<close> throws
  when \<open>startDate\<close> was never assigned.
\<close>

definition complete :: "'u system \<Rightarrow> 'u outcome" where
  "complete c =
     (let c1 = c\<lparr> repeated := 0, status := Complete, endDate := Some (clock c) \<rparr> in
      case startDate c1 of
        None \<Rightarrow> Threw TypeError c1
      | Some s \<Rightarrow> Returned (c1\<lparr> runTime := Some (clock c - s) \<rparr>))"

section \<open>The public methods\<close>

datatype duration = Str jsstring | Ms number

fun every :: "duration \<Rightarrow> 'u system \<Rightarrow> 'u system" where
  "every (Str ms) c =
     (if endsWith ms (utf16 ''ms'') then c\<lparr> timeout := Some (parseInt ms) \<rparr>
      else if endsWith ms (utf16 ''s'') then c\<lparr> timeout := Some (times_num (parseInt ms) 1000) \<rparr>
      else if endsWith ms (utf16 ''m'') then
        c\<lparr> timeout := Some (times_num (times_num (parseInt ms) 1000) 60) \<rparr>
      else c)"
| "every (Ms ms) c = c\<lparr> timeout := Some ms \<rparr>"

subsection \<open>\<open>repeat\<close> and \<open>until\<close>, awaited\<close>

text \<open>
  The recursive \<open>run\<close> of \<open>until\<close>, for a caller that awaits the driver and lets nothing
  else touch the instance meanwhile. The recursion has no bound, so the model counts
  the calls of \<open>run\<close> it may still make: at \<open>0\<close> the promise is still pending.
\<close>

fun until_run :: "nat \<Rightarrow> 'u finished \<Rightarrow> 'u system \<Rightarrow> 'u outcome" where
  "until_run 0 finished c = Pending c"
| "until_run (Suc fuel) finished c =
     await (doAction c) (\<lambda>c1.
       case finished of
         Fun f \<Rightarrow>
           (let b = f (world c1); c2 = c1\<lparr> trace := trace c1 @ [Checked b] \<rparr> in
            if \<not> b then until_run fuel finished c2 else Returned c2)
       | Val b \<Rightarrow>
           if \<not> b then until_run fuel finished c1 else Returned c1)"

definition until :: "nat \<Rightarrow> 'u finished \<Rightarrow> 'u system \<Rightarrow> 'u outcome" where
  "until fuel finished c =
     (let c1 = c\<lparr> status := Running, startDate := Some (clock c) \<rparr> in
      await (until_run fuel finished c1) complete)"

text \<open>The recursive \<open>run\<close> of \<open>repeat\<close>, with the captured, mutable \<open>count\<close>.\<close>

fun repeat_run :: "nat \<Rightarrow> int \<Rightarrow> 'u system \<Rightarrow> 'u outcome" where
  "repeat_run 0 count c = Pending c"
| "repeat_run (Suc fuel) count c =
     await (doAction c) (\<lambda>c1.
       let count1 = count - 1 in
       if count1 \<noteq> 0 then repeat_run fuel count1 c1 else Returned c1)"

definition repeat :: "nat \<Rightarrow> int \<Rightarrow> 'u system \<Rightarrow> 'u outcome" where
  "repeat fuel count c =
     (let c1 = c\<lparr> status := Running, startDate := Some (clock c) \<rparr> in
      await (repeat_run fuel count c1) complete)"

subsection \<open>\<open>infinite\<close> and \<open>stop\<close>\<close>

text \<open>
  \<open>this.action(this._repeated)\<close> where the caller suspends on the promise: the call is
  made and changes the user state; whether the promise resolves (\<open>None\<close>) or rejects
  is learnt at the resumption.
\<close>

definition call_action :: "'u system \<Rightarrow> 'u system \<times> error option" where
  "call_action c =
     (let c1 = c\<lparr> trace := trace c @ [Invoked (repeated c)] \<rparr> in
      case action c (repeated c) (world c) of
        Inl e \<Rightarrow> (c1, Some e)
      | Inr u \<Rightarrow> (c1\<lparr> world := u \<rparr>, None))"

text \<open>
  \<open>infinite()\<close> (here \<open>infinite_drv\<close>: HOL has an \<open>infinite\<close> of its own) starts its
  \<open>run\<close> and does not wait for it. \<open>run\<close> executes up to its first \<open>await\<close> inside the
  call; from there on it is a coroutine that the scheduler resumes, one suspension
  point at a time.

  \<open>infinite_check\<close> is the part of \<open>run\<close> after the delay: the test of the stop flag
  and the call of the action. \<open>infinite_run\<close> is \<open>run\<close> from its first statement.
  Each returns the state and where the coroutine is suspended.
\<close>

definition infinite_check :: "'u system \<Rightarrow> 'u system \<times> loop" where
  "infinite_check c =
     (if \<not> stopped c then
        (case call_action c of
           (c1, None) \<Rightarrow> (c1, Awaiting)
         | (c1, Some e) \<Rightarrow> (c1, Rejecting e))
      else (c, Finished))"

definition infinite_run :: "'u system \<Rightarrow> 'u system \<times> loop" where
  "infinite_run c =
     (let c1 = c\<lparr> repeated := repeated c + 1 \<rparr> in
      case delay (timeout c1) of
        Some t \<Rightarrow> (c1, Sleeping t)
      | None \<Rightarrow> infinite_check c1)"

definition infinite_drv :: "'u system \<Rightarrow> 'u system" where
  "infinite_drv c =
     (let c1 = c\<lparr> status := Running, startDate := Some (clock c) \<rparr>;
          (c2, l) = infinite_run c1
      in c2\<lparr> loops := loops c2 @ [l] \<rparr>)"

text \<open>
  The scheduler resumes the \<open>i\<close>-th background loop: a timer fires (the delay has
  elapsed, the stop flag is tested next), the action's promise has resolved
  (\<open>await run()\<close> enters the next iteration), or it has rejected (the loop ends there,
  \<open>await run()\<close> is not reached). A loop that is over stays so.
\<close>

definition resume :: "nat \<Rightarrow> 'u system \<Rightarrow> 'u system" where
  "resume i c =
     (if i < length (loops c) then
        (case loops c ! i of
           Sleeping t \<Rightarrow>
             (let (c1, l) = infinite_check (sleep t c) in c1\<lparr> loops := (loops c1)[i := l] \<rparr>)
         | Awaiting \<Rightarrow>
             (let (c1, l) = infinite_run c in c1\<lparr> loops := (loops c1)[i := l] \<rparr>)
         | Rejecting e \<Rightarrow>
             c\<lparr> trace := trace c @ [Raised e], loops := (loops c)[i := Failed e] \<rparr>
         | Finished \<Rightarrow> c
         | Failed e \<Rightarrow> c)
      else c)"

definition stop :: "'u system \<Rightarrow> 'u outcome" where
  "stop c = complete (c\<lparr> stopped := True \<rparr>)"

subsection \<open>\<open>repeat\<close> and \<open>until\<close>, step by step\<close>

text \<open>
  The same \<open>run\<close> of \<open>repeat\<close> and \<open>until\<close> as a coroutine, for a caller that does not
  await it, so that other calls and the background loops come in between its
  suspension points. \<open>run_call\<close> is \<open>_doAction\<close> from the call of the action on,
  \<open>run_enter\<close> is \<open>run\<close> from its first statement, \<open>run_continue\<close> is what follows
  \<open>await this._doAction()\<close> in \<open>run\<close> (the next \<open>run\<close>, or the way out), and
  \<open>run_settle\<close> is the end of the driver (\<open>return this._complete()\<close>).
\<close>

definition run_call :: "'u run \<Rightarrow> 'u system \<Rightarrow> 'u system \<times> 'u driver" where
  "run_call r c =
     (case call_action c of
        (c1, None) \<Rightarrow> (c1, DAwaiting r)
      | (c1, Some e) \<Rightarrow> (c1, DRejecting e))"

definition run_enter :: "'u run \<Rightarrow> 'u system \<Rightarrow> 'u system \<times> 'u driver" where
  "run_enter r c =
     (let c1 = c\<lparr> repeated := repeated c + 1 \<rparr> in
      case delay (timeout c1) of
        Some t \<Rightarrow> (c1, DSleeping r t)
      | None \<Rightarrow> run_call r c1)"

definition run_settle :: "'u system \<Rightarrow> 'u system \<times> 'u driver" where
  "run_settle c =
     (state_of (complete c),
      case threw (complete c) of None \<Rightarrow> DReturned | Some e \<Rightarrow> DThrew e)"

fun run_continue :: "'u run \<Rightarrow> 'u system \<Rightarrow> 'u system \<times> 'u driver" where
  "run_continue (RepeatRun count) c =
     (let count1 = count - 1 in
      if count1 \<noteq> 0 then run_enter (RepeatRun count1) c else (c, DUnwinding))"
| "run_continue (UntilRun (Fun f)) c =
     (let b = f (world c); c2 = c\<lparr> trace := trace c @ [Checked b] \<rparr> in
      if \<not> b then run_enter (UntilRun (Fun f)) c2 else (c2, DUnwinding))"
| "run_continue (UntilRun (Val b)) c =
     (if \<not> b then run_enter (UntilRun (Val b)) c else (c, DUnwinding))"

text \<open>The call of \<open>repeat(count)\<close> or \<open>until(finished)\<close>, up to its first suspension.\<close>

definition start_run :: "'u run \<Rightarrow> 'u system \<Rightarrow> 'u system" where
  "start_run r c =
     (let c1 = c\<lparr> status := Running, startDate := Some (clock c) \<rparr>;
          (c2, d) = run_enter r c1
      in c2\<lparr> drivers := drivers c2 @ [d] \<rparr>)"

text \<open>The scheduler resumes the \<open>i\<close>-th of these drivers.\<close>

definition resume_run :: "nat \<Rightarrow> 'u system \<Rightarrow> 'u system" where
  "resume_run i c =
     (if i < length (drivers c) then
        (case drivers c ! i of
           DSleeping r t \<Rightarrow>
             (let (c1, d) = run_call r (sleep t c) in c1\<lparr> drivers := (drivers c1)[i := d] \<rparr>)
         | DAwaiting r \<Rightarrow>
             (let (c1, d) = run_continue r c in c1\<lparr> drivers := (drivers c1)[i := d] \<rparr>)
         | DRejecting e \<Rightarrow>
             c\<lparr> trace := trace c @ [Raised e], drivers := (drivers c)[i := DThrew e] \<rparr>
         | DUnwinding \<Rightarrow>
             (let (c1, d) = run_settle c in c1\<lparr> drivers := (drivers c1)[i := d] \<rparr>)
         | DReturned \<Rightarrow> c
         | DThrew e \<Rightarrow> c)
      else c)"

subsection \<open>The two readings of a driver\<close>

text \<open>
  A driver that is awaited and left alone, and the same driver resumed by the
  scheduler step after step, are the same code read twice; the lemmas below show that
  they reach the same state. \<open>drive i n\<close> resumes the \<open>i\<close>-th driver \<open>n\<close> times in a
  row, \<open>entered\<close> is a \<open>run\<close> up to its first suspension with its record in the list
  of drivers, and \<open>run_awaited\<close>, \<open>awaited\<close> name the awaited \<open>run\<close> and driver of either
  kind.
\<close>

fun drive :: "nat \<Rightarrow> nat \<Rightarrow> 'u system \<Rightarrow> 'u system" where
  "drive i 0 c = c"
| "drive i (Suc n) c = drive i n (resume_run i c)"

definition entered :: "nat \<Rightarrow> 'u driver list \<Rightarrow> 'u run \<Rightarrow> 'u system \<Rightarrow> 'u system" where
  "entered i D r c = (let (c1, d) = run_enter r c in c1\<lparr> drivers := D[i := d] \<rparr>)"

fun run_awaited :: "nat \<Rightarrow> 'u run \<Rightarrow> 'u system \<Rightarrow> 'u outcome" where
  "run_awaited fuel (RepeatRun count) c = repeat_run fuel count c"
| "run_awaited fuel (UntilRun finished) c = until_run fuel finished c"

fun awaited :: "nat \<Rightarrow> 'u run \<Rightarrow> 'u system \<Rightarrow> 'u outcome" where
  "awaited fuel (RepeatRun count) c = repeat fuel count c"
| "awaited fuel (UntilRun finished) c = until fuel finished c"

section \<open>Sequences of calls\<close>

text \<open>
  What can happen to an instance, one thing at a time: a call of a public method
  (a driver runs up to its first suspension), or the scheduler resuming a background
  loop or a driver under way.
\<close>

datatype 'u call =
  Every duration | Repeat int | Until "'u finished" | Infinite | Stop
  | Resume nat | ResumeRun nat

fun perform :: "'u call \<Rightarrow> 'u system \<Rightarrow> 'u system" where
  "perform (Every d) c = every d c"
| "perform (Repeat count) c = start_run (RepeatRun count) c"
| "perform (Until finished) c = start_run (UntilRun finished) c"
| "perform Infinite c = infinite_drv c"
| "perform Stop c = state_of (stop c)"
| "perform (Resume i) c = resume i c"
| "perform (ResumeRun i) c = resume_run i c"

fun starts_driver :: "'u call \<Rightarrow> bool" where
  "starts_driver (Repeat count) = True"
| "starts_driver (Until finished) = True"
| "starts_driver Infinite = True"
| "starts_driver (Every d) = False"
| "starts_driver Stop = False"
| "starts_driver (Resume i) = False"
| "starts_driver (ResumeRun i) = False"

section \<open>Notions the properties are stated with\<close>

text \<open>The events that happened between a state and a later one.\<close>

definition events_since :: "'u system \<Rightarrow> 'u system \<Rightarrow> event list" where
  "events_since c c' = drop (length (trace c)) (trace c')"

text \<open>
  The user state after \<open>k\<close> calls of the action in a row, the counter standing at \<open>r\<close>
  before the first, so that the calls receive \<open>r + 1, ..., r + k\<close>; or the failure of
  the first call that fails.
\<close>

fun after_calls :: "(int \<Rightarrow> 'u \<Rightarrow> error + 'u) \<Rightarrow> int \<Rightarrow> nat \<Rightarrow> 'u \<Rightarrow> error + 'u" where
  "after_calls a r 0 u = Inr u"
| "after_calls a r (Suc k) u =
     (case a (r + 1) u of Inl e \<Rightarrow> Inl e | Inr u' \<Rightarrow> after_calls a (r + 1) k u')"

text \<open>A trace without its delays: the calls, failures and checks.\<close>

fun steps :: "event list \<Rightarrow> event list" where
  "steps [] = []"
| "steps (Slept t # es) = steps es"
| "steps (e # es) = e # steps es"

text \<open>
  \<open>k\<close> rounds of \<open>until\<close> whose check came out false, the call counter standing at
  \<open>r\<close> before the first: the action is called, then the predicate.
\<close>

fun rounds :: "int \<Rightarrow> nat \<Rightarrow> event list" where
  "rounds r 0 = []"
| "rounds r (Suc k) = Invoked (r + 1) # Checked False # rounds (r + 1) k"

text \<open>A background loop that will not run again.\<close>

fun over :: "loop \<Rightarrow> bool" where
  "over Finished = True"
| "over (Failed e) = True"
| "over (Sleeping t) = False"
| "over Awaiting = False"
| "over (Rejecting e) = False"

text \<open>
  A magnitude written as a whole number: a run of decimal digits, with its decimal
  value.
\<close>

definition isDecimalDigit :: "nat \<Rightarrow> bool" where
  "isDecimalDigit k = (48 \<le> k \<and> k \<le> 57)"

definition magnitude :: "jsstring \<Rightarrow> int" where
  "magnitude ds = foldl (\<lambda>a d. a * 10 + (int d - 48)) 0 ds"

text \<open>
  The specification's sentence on the status: a call that starts no driver moves the
  status along \<open>idle \<rightarrow> running \<rightarrow> complete\<close> or leaves it alone; a call that starts a
  driver re-enters \<open>running\<close>, overwrites \<open>startDate\<close> and resets the counter, so that
  the calls of the new run are numbered from 1.
\<close>

definition claimed_transition :: "'u call \<Rightarrow> 'u system \<Rightarrow> 'u system \<Rightarrow> bool" where
  "claimed_transition op c c' =
     (if starts_driver op
      then status c' = Running \<and> startDate c' = Some (clock c) \<and>
           calls (events_since c c') = [1 .. int (length (calls (events_since c c')))]
      else status c' = status c \<or> (status c = Idle \<and> status c' = Running) \<or>
           (status c = Running \<and> status c' = Complete))"

text \<open>
  An instance on which a call of \<open>repeat\<close> or \<open>until\<close> is under way has left \<open>idle\<close>.
\<close>

definition started :: "'u system \<Rightarrow> bool" where
  "started c = (status c = Idle \<longrightarrow> drivers c = [])"

subsection \<open>What a run leaves behind\<close>

text \<open>The fields a run of the action never writes.\<close>

definition frame :: "'u system \<Rightarrow> 'u system \<Rightarrow> bool" where
  "frame c c' =
     (status c' = status c \<and> startDate c' = startDate c \<and> endDate c' = endDate c \<and>
      runTime c' = runTime c \<and> timeout c' = timeout c \<and> stopped c' = stopped c \<and>
      action c' = action c \<and> loops c' = loops c)"

text \<open>
  The relation between the state at the start of a run and its outcome: the frame is
  kept, the trace grows, the calls are numbered by the counter, and a failure of the
  action is the last thing that happens.
\<close>

definition extends :: "'u system \<Rightarrow> 'u outcome \<Rightarrow> bool" where
  "extends c out =
     (frame c (state_of out) \<and> repeated c \<le> repeated (state_of out) \<and>
      (\<exists>es. trace (state_of out) = trace c @ es \<and>
            calls es = [repeated c + 1 .. repeated (state_of out)] \<and>
            (case threw out of
               None \<Rightarrow> (\<forall>e. Raised e \<notin> set es)
             | Some e \<Rightarrow> (\<exists>pre n. es = pre @ [Invoked n, Raised e] \<and>
                          (\<forall>e'. Raised e' \<notin> set pre)))))"

text \<open>
  The shape of a run of \<open>until\<close> with a predicate function \<open>f\<close> and an action \<open>a\<close>,
  started with the counter at \<open>r\<close> in the user state \<open>u\<close>: \<open>k\<close> calls were made, after
  each of the first \<open>k - 1\<close> the predicate was false, and the outcome tells what the
  last call led to.
\<close>

definition until_shape ::
  "(int \<Rightarrow> 'u \<Rightarrow> error + 'u) \<Rightarrow> ('u \<Rightarrow> bool) \<Rightarrow> int \<Rightarrow> 'u \<Rightarrow> nat \<Rightarrow> 'u outcome \<Rightarrow>
     event list \<Rightarrow> bool" where
  "until_shape a f r u fuel out es =
     (\<exists>k. k \<le> fuel \<and>
       (\<forall>j. 0 < j \<and> j < k \<longrightarrow> (\<exists>v. after_calls a r j u = Inr v \<and> \<not> f v)) \<and>
       (case out of
          Returned c' \<Rightarrow> 0 < k \<and>
            steps es = rounds r (k - 1) @ [Invoked (r + int k), Checked True] \<and>
            after_calls a r k u = Inr (world c') \<and> f (world c')
        | Threw e c' \<Rightarrow> 0 < k \<and>
            steps es = rounds r (k - 1) @ [Invoked (r + int k), Raised e] \<and>
            after_calls a r k u = Inl e \<and> after_calls a r (k - 1) u = Inr (world c')
        | Pending c' \<Rightarrow> k = fuel \<and> steps es = rounds r fuel \<and>
            after_calls a r fuel u = Inr (world c') \<and> (0 < fuel \<longrightarrow> \<not> f (world c'))))"

text \<open>What one \<open>_doAction\<close> sleeps: the event, and the time that passes.\<close>

fun slept :: "int option \<Rightarrow> event list" where
  "slept None = []"
| "slept (Some t) = [Slept t]"

fun waited :: "int option \<Rightarrow> int" where
  "waited None = 0"
| "waited (Some t) = max 0 t"

section \<open>Lemmas on runs\<close>

subsection \<open>The runs of \<open>repeat\<close> and \<open>until\<close>\<close>

lemma calls_append: "calls (xs @ ys) = calls xs @ calls ys"
  by (induction xs rule: calls.induct) simp_all

lemma frame_refl: "frame c c"
  by (simp add: frame_def)

lemma frame_trans: "frame a b \<Longrightarrow> frame b c \<Longrightarrow> frame a c"
  by (simp add: frame_def)

lemma doAction_Inr:
  assumes "action c (repeated c + 1) (world c) = Inr u"
  shows "doAction c = Returned (c\<lparr> repeated := repeated c + 1, clock := clock c + waited (delay (timeout c)),
           trace := trace c @ slept (delay (timeout c)) @ [Invoked (repeated c + 1)], world := u \<rparr>)"
  using assms by (cases "delay (timeout c)") (simp_all add: doAction_def invoke_def sleep_def)

lemma doAction_Inl:
  assumes "action c (repeated c + 1) (world c) = Inl e"
  shows "doAction c = Threw e (c\<lparr> repeated := repeated c + 1, clock := clock c + waited (delay (timeout c)),
           trace := trace c @ slept (delay (timeout c)) @ [Invoked (repeated c + 1), Raised e] \<rparr>)"
  using assms by (cases "delay (timeout c)") (simp_all add: doAction_def invoke_def sleep_def)

lemma extends_Pending: "extends c (Pending c)"
  by (simp add: extends_def frame_refl)

lemma extends_Returned: "extends c (Returned c)"
  by (simp add: extends_def frame_refl)

lemma extends_doAction: "extends c (doAction c)"
proof (cases "action c (repeated c + 1) (world c)")
  case (Inl e)
  show ?thesis
    unfolding extends_def doAction_Inl [OF Inl]
    by (cases "delay (timeout c)") (simp_all add: frame_def calls_append)
next
  case (Inr u)
  show ?thesis
    unfolding extends_def doAction_Inr [OF Inr]
    by (cases "delay (timeout c)") (simp_all add: frame_def calls_append)
qed

lemma upto_join:
  assumes "r \<le> r1" and "r1 \<le> r2"
  shows "[r + 1 .. r1] @ [r1 + 1 .. r2] = [r + 1 .. (r2::int)]"
proof (cases "r1 = r2")
  case True
  then show ?thesis by simp
next
  case False
  with assms have "r + 1 \<le> r1 + 1" and "r1 + 1 \<le> r2" by simp_all
  from upto_split1 [OF this] show ?thesis by simp
qed

lemma extends_trans:
  assumes "extends c (Returned c1)" and "extends c1 out"
  shows "extends c out"
proof -
  from assms(1) obtain es1 where 1: "frame c c1" "repeated c \<le> repeated c1"
      "trace c1 = trace c @ es1" "calls es1 = [repeated c + 1 .. repeated c1]"
      "\<forall>e. Raised e \<notin> set es1"
    by (auto simp: extends_def)
  from assms(2) obtain es2 where 2: "frame c1 (state_of out)" "repeated c1 \<le> repeated (state_of out)"
      "trace (state_of out) = trace c1 @ es2" "calls es2 = [repeated c1 + 1 .. repeated (state_of out)]"
      "case threw out of
               None \<Rightarrow> (\<forall>e. Raised e \<notin> set es2)
             | Some e \<Rightarrow> (\<exists>pre n. es2 = pre @ [Invoked n, Raised e] \<and>
                          (\<forall>e'. Raised e' \<notin> set pre))"
    by (auto simp: extends_def)
  have tr: "trace (state_of out) = trace c @ (es1 @ es2)"
    using 1(3) 2(3) by simp
  have cl: "calls (es1 @ es2) = [repeated c + 1 .. repeated (state_of out)]"
    using 1(2,4) 2(2,4) by (simp add: calls_append upto_join)
  have sh: "case threw out of
               None \<Rightarrow> (\<forall>e. Raised e \<notin> set (es1 @ es2))
             | Some e \<Rightarrow> (\<exists>pre n. es1 @ es2 = pre @ [Invoked n, Raised e] \<and>
                          (\<forall>e'. Raised e' \<notin> set pre))"
  proof (cases "threw out")
    case None
    with 1(5) 2(5) show ?thesis by simp
  next
    case (Some e)
    with 2(5) obtain pre n where p: "es2 = pre @ [Invoked n, Raised e]" "\<forall>e'. Raised e' \<notin> set pre"
      by auto
    have "es1 @ es2 = (es1 @ pre) @ [Invoked n, Raised e]" using p(1) by simp
    moreover have "\<forall>e'. Raised e' \<notin> set (es1 @ pre)" using 1(5) p(2) by simp
    ultimately show ?thesis using Some by (simp only: option.case) blast
  qed
  show ?thesis
    unfolding extends_def
    using frame_trans [OF 1(1) 2(1)] 1(2) 2(2) tr cl sh by (intro conjI exI [of _ "es1 @ es2"]) simp_all
qed

lemma extends_await:
  assumes "extends c x" and "\<And>c1. x = Returned c1 \<Longrightarrow> extends c1 (k c1)"
  shows "extends c (await x k)"
proof (cases x)
  case (Returned c1)
  with assms show ?thesis by (auto intro: extends_trans)
qed (use assms in simp_all)

lemma repeat_run_extends: "extends c (repeat_run fuel n c)"
proof (induction fuel arbitrary: n c)
  case 0
  show ?case by (simp add: extends_Pending)
next
  case (Suc fuel)
  show ?case
    by (simp only: repeat_run.simps, rule extends_await [OF extends_doAction])
      (simp add: Let_def Suc extends_Returned)
qed

lemma extends_checked:
  assumes "extends (c\<lparr> trace := trace c @ [Checked b] \<rparr>) out"
  shows "extends c out"
proof -
  have "extends c (Returned (c\<lparr> trace := trace c @ [Checked b] \<rparr>))"
    by (simp add: extends_def frame_def)
  from extends_trans [OF this assms] show ?thesis .
qed

lemma until_run_extends: "extends c (until_run fuel fin c)"
proof (induction fuel arbitrary: c)
  case 0
  show ?case by (simp add: extends_Pending)
next
  case (Suc fuel)
  have step: "extends c1 (case fin of
         Fun f \<Rightarrow>
           (let b = f (world c1); c2 = c1\<lparr> trace := trace c1 @ [Checked b] \<rparr> in
            if \<not> b then until_run fuel fin c2 else Returned c2)
       | Val b \<Rightarrow>
           if \<not> b then until_run fuel fin c1 else Returned c1)" for c1
  proof (cases fin)
    case (Fun f)
    have a: "extends c1 (until_run fuel fin (c1\<lparr> trace := trace c1 @ [Checked False] \<rparr>))"
      by (rule extends_checked [OF Suc])
    have b: "extends c1 (Returned (c1\<lparr> trace := trace c1 @ [Checked True] \<rparr>))"
      by (rule extends_checked [OF extends_Returned])
    from Fun a b show ?thesis
      by (cases "f (world c1)") (simp_all add: Let_def)
  next
    case (Val b)
    then show ?thesis using Suc by (cases b) (simp_all add: extends_Returned)
  qed
  show ?case
    by (simp only: until_run.simps, rule extends_await [OF extends_doAction]) (rule step)
qed

lemma events_since_append: "trace c' = trace c @ es \<Longrightarrow> events_since c c' = es"
  by (simp add: events_since_def)

lemma complete_started:
  assumes "startDate c = Some s"
  shows "complete c = Returned (c\<lparr> repeated := 0, status := Complete, endDate := Some (clock c),
            runTime := Some (clock c - s) \<rparr>)"
  using assms by (simp add: complete_def)

lemma driver_Returned:
  assumes ext: "extends (c\<lparr> status := Running, startDate := Some (clock c) \<rparr>) x"
    and ret: "await x complete = Returned c'"
  shows "\<exists>c2. x = Returned c2 \<and> c' = c2\<lparr> repeated := 0, status := Complete,
           endDate := Some (clock c2), runTime := Some (clock c2 - clock c) \<rparr> \<and>
           startDate c2 = Some (clock c)"
proof (cases x)
  case (Returned c2)
  with ext have sd: "startDate c2 = Some (clock c)"
    by (simp add: extends_def frame_def)
  from ret Returned complete_started [OF sd] show ?thesis using sd by simp
qed (use ret in simp_all)

lemma driver_not_Returned:
  assumes ext: "extends (c\<lparr> status := Running, startDate := Some (clock c) \<rparr>) x"
  shows "(returned (await x complete) \<longleftrightarrow> returned x) \<and> threw (await x complete) = threw x
     \<and> trace (state_of (await x complete)) = trace (state_of x)
     \<and> (\<not> returned x \<longrightarrow> await x complete = x)"
proof (cases x)
  case (Returned c2)
  with ext have sd: "startDate c2 = Some (clock c)"
    by (simp add: extends_def frame_def)
  from Returned complete_started [OF sd] show ?thesis by simp
qed simp_all

lemma driver_world:
  assumes ext: "extends (c\<lparr> status := Running, startDate := Some (clock c) \<rparr>) x"
  shows "world (state_of (await x complete)) = world (state_of x)"
proof (cases x)
  case (Returned c2)
  with ext have sd: "startDate c2 = Some (clock c)"
    by (simp add: extends_def frame_def)
  from Returned complete_started [OF sd] show ?thesis by simp
qed simp_all

lemma repeat_run_world:
  assumes "0 < n" and "\<forall>k u. \<exists>u'. action c k u = Inr u'"
  shows "\<exists>c'. repeat_run fuel n c = (if n \<le> int fuel then Returned c' else Pending c') \<and>
           repeated c' = repeated c + min (int fuel) n \<and>
           after_calls (action c) (repeated c) (nat (min (int fuel) n)) (world c) = Inr (world c')"
  using assms
proof (induction fuel arbitrary: n c)
  case 0
  then show ?case by simp
next
  case (Suc fuel)
  from Suc.prems(2) obtain u where u: "action c (repeated c + 1) (world c) = Inr u" by blast
  let ?c1 = "c\<lparr> repeated := repeated c + 1, clock := clock c + waited (delay (timeout c)),
           trace := trace c @ slept (delay (timeout c)) @ [Invoked (repeated c + 1)], world := u \<rparr>"
  have d: "doAction c = Returned ?c1" by (rule doAction_Inr [OF u])
  show ?case
  proof (cases "n = 1")
    case True
    then show ?thesis by (simp add: d u)
  next
    case False
    with Suc.prems have pos: "0 < n - 1" by simp
    have act: "\<forall>k u. \<exists>u'. action ?c1 k u = Inr u'" using Suc.prems(2) by simp
    from Suc.IH [OF pos act] obtain c' where c':
      "repeat_run fuel (n - 1) ?c1 = (if n - 1 \<le> int fuel then Returned c' else Pending c')"
      "repeated c' = repeated ?c1 + min (int fuel) (n - 1)"
      "after_calls (action ?c1) (repeated ?c1) (nat (min (int fuel) (n - 1))) (world ?c1) = Inr (world c')"
      by blast
    have k: "nat (min (int (Suc fuel)) n) = Suc (nat (min (int fuel) (n - 1)))"
      using pos by simp
    have "after_calls (action c) (repeated c) (nat (min (int (Suc fuel)) n)) (world c) = Inr (world c')"
      unfolding k using c'(3) by (simp add: u)
    with c'(1,2) show ?thesis using False by (auto simp: d Let_def)
  qed
qed

lemma repeat_run_nonpositive: "count \<le> 0 \<Longrightarrow> \<not> returned (repeat_run fuel count c)"
proof (induction fuel arbitrary: count c)
  case 0
  show ?case by simp
next
  case (Suc fuel)
  have "count - 1 \<le> 0" and "count - 1 \<noteq> 0" using Suc.prems by simp_all
  then show ?case using Suc.IH [of "count - 1"]
    by (cases "doAction c") (simp_all add: Let_def)
qed

lemma repeat_run_first_call:
  "\<exists>es. trace (state_of (repeat_run (Suc fuel) count c)) = trace c @ slept (delay (timeout c)) @ Invoked (repeated c + 1) # es"
proof (cases "action c (repeated c + 1) (world c)")
  case (Inl e)
  show ?thesis by (simp add: doAction_Inl [OF Inl])
next
  case (Inr u)
  let ?c1 = "c\<lparr> repeated := repeated c + 1, clock := clock c + waited (delay (timeout c)),
           trace := trace c @ slept (delay (timeout c)) @ [Invoked (repeated c + 1)], world := u \<rparr>"
  have "extends ?c1 (if count - 1 \<noteq> 0 then repeat_run fuel (count - 1) ?c1 else Returned ?c1)"
    by (simp add: repeat_run_extends extends_Returned)
  then obtain es where "trace (state_of (if count - 1 \<noteq> 0 then repeat_run fuel (count - 1) ?c1 else Returned ?c1))
      = trace ?c1 @ es" unfolding extends_def by blast
  then show ?thesis by (simp add: doAction_Inr [OF Inr] Let_def)
qed

subsection \<open>The steps of \<open>until\<close>\<close>

lemma steps_append: "steps (xs @ ys) = steps xs @ steps ys"
  by (induction xs rule: steps.induct) simp_all

lemma steps_slept: "steps (slept d) = []"
  by (cases d) simp_all

lemma until_shape_step:
  assumes sh: "until_shape a f (r + 1) u' fuel out es" and pre: "steps pre = []"
    and call: "a (r + 1) u = Inr u'" and nf: "\<not> f u'"
  shows "until_shape a f r u (Suc fuel) out (pre @ Invoked (r + 1) # Checked False # es)"
proof -
  from sh obtain k where k: "k \<le> fuel"
    and before: "\<forall>j. 0 < j \<and> j < k \<longrightarrow> (\<exists>v. after_calls a (r + 1) j u' = Inr v \<and> \<not> f v)"
    and last: "case out of
          Returned c' \<Rightarrow> 0 < k \<and>
            steps es = rounds (r + 1) (k - 1) @ [Invoked (r + 1 + int k), Checked True] \<and>
            after_calls a (r + 1) k u' = Inr (world c') \<and> f (world c')
        | Threw e c' \<Rightarrow> 0 < k \<and>
            steps es = rounds (r + 1) (k - 1) @ [Invoked (r + 1 + int k), Raised e] \<and>
            after_calls a (r + 1) k u' = Inl e \<and> after_calls a (r + 1) (k - 1) u' = Inr (world c')
        | Pending c' \<Rightarrow> k = fuel \<and> steps es = rounds (r + 1) fuel \<and>
            after_calls a (r + 1) fuel u' = Inr (world c') \<and> (0 < fuel \<longrightarrow> \<not> f (world c'))"
    unfolding until_shape_def by blast
  have rd: "0 < k \<Longrightarrow> rounds r k = Invoked (r + 1) # Checked False # rounds (r + 1) (k - 1)"
    by (cases k) simp_all
  have ac: "after_calls a r (Suc j) u = after_calls a (r + 1) j u'" for j
    by (simp add: call)
  have ac': "0 < k \<Longrightarrow> after_calls a r k u = after_calls a (r + 1) (k - 1) u'"
    using ac [of "k - 1"] by simp
  have i: "r + 1 + int k = r + int (Suc k)" by simp
  have before': "\<forall>j. 0 < j \<and> j < Suc k \<longrightarrow> (\<exists>v. after_calls a r j u = Inr v \<and> \<not> f v)"
  proof (intro allI impI)
    fix j assume j: "0 < j \<and> j < Suc k"
    show "\<exists>v. after_calls a r j u = Inr v \<and> \<not> f v"
    proof (cases j)
      case 0
      with j show ?thesis by simp
    next
      case (Suc j')
      show ?thesis
      proof (cases j')
        case 0
        with Suc show ?thesis by (simp add: call nf)
      next
        case (Suc j'')
        with \<open>j = Suc j'\<close> j have "0 < j' \<and> j' < k" by simp
        with before obtain v where "after_calls a (r + 1) j' u' = Inr v \<and> \<not> f v" by blast
        then show ?thesis unfolding \<open>j = Suc j'\<close> ac by blast
      qed
    qed
  qed
  have last': "case out of
          Returned c' \<Rightarrow> 0 < Suc k \<and>
            steps (pre @ Invoked (r + 1) # Checked False # es) =
              rounds r (Suc k - 1) @ [Invoked (r + int (Suc k)), Checked True] \<and>
            after_calls a r (Suc k) u = Inr (world c') \<and> f (world c')
        | Threw e c' \<Rightarrow> 0 < Suc k \<and>
            steps (pre @ Invoked (r + 1) # Checked False # es) =
              rounds r (Suc k - 1) @ [Invoked (r + int (Suc k)), Raised e] \<and>
            after_calls a r (Suc k) u = Inl e \<and> after_calls a r (Suc k - 1) u = Inr (world c')
        | Pending c' \<Rightarrow> Suc k = Suc fuel \<and>
            steps (pre @ Invoked (r + 1) # Checked False # es) = rounds r (Suc fuel) \<and>
            after_calls a r (Suc fuel) u = Inr (world c') \<and> (0 < Suc fuel \<longrightarrow> \<not> f (world c'))"
  proof (cases out)
    case (Returned c')
    with last show ?thesis unfolding i [symmetric]
      by (simp add: steps_append pre rd call)
  next
    case (Threw e c')
    with last show ?thesis unfolding i [symmetric]
      by (simp add: steps_append pre rd call ac')
  next
    case (Pending c')
    with last have p: "k = fuel" "steps es = rounds (r + 1) fuel"
      "after_calls a (r + 1) fuel u' = Inr (world c')" "0 < fuel \<longrightarrow> \<not> f (world c')" by simp_all
    have "\<not> f (world c')"
    proof (cases fuel)
      case 0
      with p(3) have "world c' = u'" by simp
      with nf show ?thesis by simp
    next
      case (Suc m)
      with p(4) show ?thesis by simp
    qed
    with p Pending show ?thesis by (simp add: steps_append pre call)
  qed
  show ?thesis
    unfolding until_shape_def
    using k before' last' by (intro exI [of _ "Suc k"] conjI) simp_all
qed

lemma until_run_shape:
  "\<exists>es. trace (state_of (until_run fuel (Fun f) c)) = trace c @ es \<and>
        until_shape (action c) f (repeated c) (world c) fuel (until_run fuel (Fun f) c) es"
proof (induction fuel arbitrary: c)
  case 0
  show ?case by (simp add: until_shape_def)
next
  case (Suc fuel)
  let ?r = "repeated c"
  show ?case
  proof (cases "action c (?r + 1) (world c)")
    case (Inl e)
    have "until_shape (action c) f ?r (world c) (Suc fuel) (until_run (Suc fuel) (Fun f) c)
       (slept (delay (timeout c)) @ [Invoked (?r + 1), Raised e])"
      unfolding until_shape_def
      by (rule exI [of _ 1]) (simp add: doAction_Inl [OF Inl] steps_append steps_slept Inl)
    moreover have "trace (state_of (until_run (Suc fuel) (Fun f) c)) =
        trace c @ slept (delay (timeout c)) @ [Invoked (?r + 1), Raised e]"
      by (simp add: doAction_Inl [OF Inl])
    ultimately show ?thesis by blast
  next
    case (Inr u)
    let ?c1 = "c\<lparr> repeated := ?r + 1, clock := clock c + waited (delay (timeout c)),
           trace := trace c @ slept (delay (timeout c)) @ [Invoked (?r + 1)], world := u \<rparr>"
    have d: "doAction c = Returned ?c1" by (rule doAction_Inr [OF Inr])
    show ?thesis
    proof (cases "f u")
      case True
      have "until_shape (action c) f ?r (world c) (Suc fuel) (until_run (Suc fuel) (Fun f) c)
         (slept (delay (timeout c)) @ [Invoked (?r + 1), Checked True])"
        unfolding until_shape_def
        by (rule exI [of _ 1]) (simp add: d True steps_append steps_slept Inr)
      moreover have "trace (state_of (until_run (Suc fuel) (Fun f) c)) =
          trace c @ slept (delay (timeout c)) @ [Invoked (?r + 1), Checked True]"
        by (simp add: d True)
      ultimately show ?thesis by blast
    next
      case False
      let ?c2 = "?c1\<lparr> trace := trace ?c1 @ [Checked False] \<rparr>"
      have u: "until_run (Suc fuel) (Fun f) c = until_run fuel (Fun f) ?c2"
        by (simp add: d False)
      from Suc [of ?c2] obtain es where es: "trace (state_of (until_run fuel (Fun f) ?c2)) = trace ?c2 @ es"
        "until_shape (action c) f (?r + 1) u fuel (until_run fuel (Fun f) ?c2) es" by auto
      have "until_shape (action c) f ?r (world c) (Suc fuel) (until_run (Suc fuel) (Fun f) c)
         (slept (delay (timeout c)) @ Invoked (?r + 1) # Checked False # es)"
        unfolding u by (rule until_shape_step [OF es(2) steps_slept Inr False])
      moreover have "trace (state_of (until_run (Suc fuel) (Fun f) c)) =
          trace c @ slept (delay (timeout c)) @ Invoked (?r + 1) # Checked False # es"
        unfolding u es(1) by simp
      ultimately show ?thesis by blast
    qed
  qed
qed

subsection \<open>The background loop once the stop flag is set\<close>

lemma stop_state:
  "stopped (state_of (stop c)) \<and> repeated (state_of (stop c)) = 0 \<and>
   loops (state_of (stop c)) = loops c \<and> trace (state_of (stop c)) = trace c \<and>
   timeout (state_of (stop c)) = timeout c \<and> status (state_of (stop c)) = Complete"
  by (simp add: stop_def complete_def Let_def split: option.splits)

lemma resume_Sleeping_stopped:
  assumes "i < length (loops s)" and "loops s ! i = Sleeping t" and "stopped s"
  shows "resume i s = s\<lparr> clock := clock s + max 0 t, trace := trace s @ [Slept t],
            loops := (loops s)[i := Finished] \<rparr>"
  using assms by (simp add: resume_def infinite_check_def sleep_def)

lemma resume_Awaiting_stopped:
  assumes "i < length (loops s)" and "loops s ! i = Awaiting" and "stopped s"
  shows "resume i s = s\<lparr> repeated := repeated s + 1,
            loops := (loops s)[i := (case delay (timeout s) of Some t \<Rightarrow> Sleeping t | None \<Rightarrow> Finished)] \<rparr>"
  using assms by (simp add: resume_def infinite_run_def infinite_check_def split: option.splits)

lemma resume_Rejecting:
  assumes "i < length (loops s)" and "loops s ! i = Rejecting e"
  shows "resume i s = s\<lparr> trace := trace s @ [Raised e], loops := (loops s)[i := Failed e] \<rparr>"
  using assms by (simp add: resume_def)

lemma resume_over:
  assumes "i < length (loops s) \<longrightarrow> over (loops s ! i)"
  shows "resume i s = s"
  using assms by (cases "loops s ! i") (simp_all add: resume_def)

lemma resume_stopped:
  assumes "stopped s"
  shows "stopped (resume i s) \<and> calls (trace (resume i s)) = calls (trace s)"
proof (cases "i < length (loops s)")
  case True
  show ?thesis
  proof (cases "loops s ! i")
    case (Sleeping t)
    from resume_Sleeping_stopped [OF True this assms] assms show ?thesis by (simp add: calls_append)
  next
    case Awaiting
    from resume_Awaiting_stopped [OF True this assms] assms show ?thesis by simp
  next
    case (Rejecting e)
    from resume_Rejecting [OF True this] assms show ?thesis by (simp add: calls_append)
  next
    case Finished
    then have "resume i s = s" by (intro resume_over) simp
    with assms show ?thesis by simp
  next
    case (Failed e)
    then have "resume i s = s" by (intro resume_over) simp
    with assms show ?thesis by simp
  qed
next
  case False
  then have "resume i s = s" by (intro resume_over) simp
  with assms show ?thesis by simp
qed

lemma fold_resume_stopped:
  "stopped s \<Longrightarrow> calls (trace (fold resume js s)) = calls (trace s)"
proof (induction js arbitrary: s)
  case Nil
  show ?case by simp
next
  case (Cons j js)
  from resume_stopped [OF Cons.prems, of j] Cons.IH [of "resume j s"] show ?case by simp
qed

subsection \<open>Reading a duration\<close>

lemma digit_facts:
  assumes "isDecimalDigit d"
  shows "isRadixDigit 10 d" and "\<not> isWhiteSpace d" and "[d] \<noteq> utf16 ''-''" and "[d] \<noteq> utf16 ''+''"
    and "d \<noteq> 120" and "d \<noteq> 88" and "d \<noteq> 109" and "d \<noteq> 115"
    and "int (digitValue d) = int d - 48"
  using assms
  by (auto simp: isDecimalDigit_def isRadixDigit_def isWhiteSpace_def digitValue_def utf16_def)

lemma digitsValue_magnitude_aux:
  assumes "\<forall>d\<in>set ds. isDecimalDigit d"
  shows "int (foldl (\<lambda>a k. a * 10 + digitValue k) a ds) =
         foldl (\<lambda>a d. a * 10 + (int d - 48)) (int a) ds"
  using assms
proof (induction ds arbitrary: a)
  case Nil
  show ?case by simp
next
  case (Cons d ds)
  have "int (a * 10 + digitValue d) = int a * 10 + (int d - 48)"
    using digit_facts(9) [of d] Cons.prems by simp
  with Cons.IH [of "a * 10 + digitValue d"] Cons.prems show ?case by simp
qed

lemma digitsValue_magnitude:
  "\<forall>d\<in>set ds. isDecimalDigit d \<Longrightarrow> int (digitsValue 10 ds) = magnitude ds"
  using digitsValue_magnitude_aux [of ds 0] by (simp add: digitsValue_def magnitude_def)

lemma magnitude_nonneg: "\<forall>d\<in>set ds. isDecimalDigit d \<Longrightarrow> 0 \<le> magnitude ds"
  using digitsValue_magnitude [of ds] by simp

lemma parseInt_magnitude:
  assumes ne: "ds \<noteq> []" and dig: "\<forall>d\<in>set ds. isDecimalDigit d"
    and x: "\<not> isRadixDigit 10 x" "x \<noteq> 120" "x \<noteq> 88"
  shows "parseInt (ds @ x # rest) = toNumber (magnitude ds)"
proof -
  from ne obtain d ds' where ds: "ds = d # ds'" by (cases ds) auto
  with dig have d: "isDecimalDigit d" by simp
  let ?s = "ds @ x # rest"
  have 1: "dropWhile isWhiteSpace ?s = ?s"
    using digit_facts(2) [OF d] by (simp add: ds)
  have 2: "take 1 ?s \<noteq> utf16 ''-''" "take 1 ?s \<noteq> utf16 ''+''"
    using digit_facts(3,4) [OF d] by (simp_all add: ds)
  have 3: "take 2 ?s \<noteq> utf16 ''0x''" "take 2 ?s \<noteq> utf16 ''0X''"
  proof -
    show "take 2 ?s \<noteq> utf16 ''0x''"
    proof (cases ds')
      case Nil
      then show ?thesis using x by (simp add: ds utf16_def)
    next
      case (Cons e es)
      with dig ds have "isDecimalDigit e" by simp
      from digit_facts(5) [OF this] show ?thesis by (simp add: ds Cons utf16_def)
    qed
    show "take 2 ?s \<noteq> utf16 ''0X''"
    proof (cases ds')
      case Nil
      then show ?thesis using x by (simp add: ds utf16_def)
    next
      case (Cons e es)
      with dig ds have "isDecimalDigit e" by simp
      from digit_facts(6) [OF this] show ?thesis by (simp add: ds Cons utf16_def)
    qed
  qed
  have 4: "takeWhile (isRadixDigit 10) ?s = ds"
    using dig x(1) digit_facts(1) by (simp add: takeWhile_tail)
  show ?thesis
    unfolding parseInt_def Let_def 1
    using 2 3 4 ne digitsValue_magnitude [OF dig] by simp
qed

lemma endsWith_append: "endsWith (ds @ t) t"
  by (simp add: endsWith_def)

lemma suffix_facts:
  assumes ne: "ds \<noteq> []" and dig: "\<forall>d\<in>set ds. isDecimalDigit d"
  shows "\<not> endsWith (ds @ utf16 ''s'') (utf16 ''ms'')" and "\<not> endsWith (ds @ utf16 ''m'') (utf16 ''ms'')"
    and "\<not> endsWith (ds @ utf16 ''m'') (utf16 ''s'')"
proof -
  from ne obtain d ds' where ds: "ds = ds' @ [d]" by (cases ds rule: rev_cases) auto
  with dig have d: "isDecimalDigit d" by simp
  show "\<not> endsWith (ds @ utf16 ''s'') (utf16 ''ms'')"
    using digit_facts(7) [OF d] by (simp add: endsWith_def ds utf16_def)
  show "\<not> endsWith (ds @ utf16 ''m'') (utf16 ''ms'')"
    by (simp add: endsWith_def ds utf16_def)
  show "\<not> endsWith (ds @ utf16 ''m'') (utf16 ''s'')"
    by (simp add: endsWith_def ds utf16_def)
qed

lemma not_digit_suffix:
  "\<not> isRadixDigit 10 109" "\<not> isRadixDigit 10 115"
  by (simp_all add: isRadixDigit_def digitValue_def)

lemma every_digits:
  assumes ne: "ds \<noteq> []" and dig: "\<forall>d\<in>set ds. isDecimalDigit d"
  shows "every (Str (ds @ utf16 ''ms'')) c = c\<lparr> timeout := Some (toNumber (magnitude ds)) \<rparr>"
    and "every (Str (ds @ utf16 ''s'')) c = c\<lparr> timeout := Some (times_num (toNumber (magnitude ds)) 1000) \<rparr>"
    and "every (Str (ds @ utf16 ''m'')) c =
           c\<lparr> timeout := Some (times_num (times_num (toNumber (magnitude ds)) 1000) 60) \<rparr>"
proof -
  have ms: "parseInt (ds @ utf16 ''ms'') = toNumber (magnitude ds)"
    using parseInt_magnitude [OF ne dig not_digit_suffix(1), of "utf16 ''s''"] by (simp add: utf16_def)
  have s: "parseInt (ds @ utf16 ''s'') = toNumber (magnitude ds)"
    using parseInt_magnitude [OF ne dig not_digit_suffix(2), of "[]"] by (simp add: utf16_def)
  have m: "parseInt (ds @ utf16 ''m'') = toNumber (magnitude ds)"
    using parseInt_magnitude [OF ne dig not_digit_suffix(1), of "[]"] by (simp add: utf16_def)
  show "every (Str (ds @ utf16 ''ms'')) c = c\<lparr> timeout := Some (toNumber (magnitude ds)) \<rparr>"
    using endsWith_append [of ds "utf16 ''ms''"] by (simp add: ms)
  show "every (Str (ds @ utf16 ''s'')) c = c\<lparr> timeout := Some (times_num (toNumber (magnitude ds)) 1000) \<rparr>"
    using endsWith_append [of ds "utf16 ''s''"] suffix_facts(1) [OF ne dig] by (simp add: s)
  show "every (Str (ds @ utf16 ''m'')) c =
           c\<lparr> timeout := Some (times_num (times_num (toNumber (magnitude ds)) 1000) 60) \<rparr>"
    using endsWith_append [of ds "utf16 ''m''"] suffix_facts(2,3) [OF ne dig] by (simp add: m)
qed

lemma toNumber_safe: "0 \<le> n \<Longrightarrow> n \<le> 9007199254740992 \<Longrightarrow> toNumber n = Num n"
  by (simp add: toNumber_def)

subsection \<open>The status, step by step\<close>

lemma every_keeps:
  "status (every d c) = status c \<and> drivers (every d c) = drivers c"
  by (cases d) simp_all

lemma call_action_keeps:
  "status (fst (call_action c)) = status c \<and> startDate (fst (call_action c)) = startDate c \<and>
   drivers (fst (call_action c)) = drivers c \<and> loops (fst (call_action c)) = loops c \<and>
   clock (fst (call_action c)) = clock c"
  by (simp add: call_action_def Let_def split: sum.splits)

lemma infinite_check_keeps:
  "status (fst (infinite_check c)) = status c \<and> startDate (fst (infinite_check c)) = startDate c \<and>
   drivers (fst (infinite_check c)) = drivers c \<and> loops (fst (infinite_check c)) = loops c"
  using call_action_keeps [of c]
  by (cases "call_action c") (auto simp: infinite_check_def split: option.splits)

lemma infinite_run_keeps:
  "status (fst (infinite_run c)) = status c \<and> startDate (fst (infinite_run c)) = startDate c \<and>
   drivers (fst (infinite_run c)) = drivers c \<and> loops (fst (infinite_run c)) = loops c"
  using infinite_check_keeps [of "c\<lparr> repeated := repeated c + 1 \<rparr>"]
  by (simp add: infinite_run_def Let_def split: option.splits)

lemma run_call_keeps:
  "status (fst (run_call r c)) = status c \<and> startDate (fst (run_call r c)) = startDate c \<and>
   drivers (fst (run_call r c)) = drivers c"
  using call_action_keeps [of c]
  by (cases "call_action c") (auto simp: run_call_def split: option.splits)

lemma run_enter_keeps:
  "status (fst (run_enter r c)) = status c \<and> startDate (fst (run_enter r c)) = startDate c \<and>
   drivers (fst (run_enter r c)) = drivers c"
  using run_call_keeps [of r "c\<lparr> repeated := repeated c + 1 \<rparr>"]
  by (simp add: run_enter_def Let_def split: option.splits)

lemma run_settle_keeps:
  "status (fst (run_settle c)) = Complete \<and> drivers (fst (run_settle c)) = drivers c"
  by (simp add: run_settle_def complete_def Let_def split: option.splits)

lemma run_continue_keeps:
  "(status (fst (run_continue r c)) = status c \<or> status (fst (run_continue r c)) = Complete) \<and>
   drivers (fst (run_continue r c)) = drivers c"
proof (cases r)
  case (RepeatRun count)
  then show ?thesis
    using run_enter_keeps [of "RepeatRun (count - 1)" c] run_settle_keeps [of c]
    by (simp add: Let_def)
next
  case (UntilRun fin)
  show ?thesis
  proof (cases fin)
    case (Fun f)
    let ?c2 = "c\<lparr> trace := trace c @ [Checked (f (world c))] \<rparr>"
    from Fun UntilRun show ?thesis
      using run_enter_keeps [of "UntilRun (Fun f)" ?c2] run_settle_keeps [of ?c2]
      by (cases "f (world c)") (simp_all add: Let_def)
  next
    case (Val b)
    with UntilRun show ?thesis
      using run_enter_keeps [of "UntilRun (Val b)" c] run_settle_keeps [of c]
      by (cases b) simp_all
  qed
qed

lemma resume_keeps:
  "status (resume i c) = status c \<and> drivers (resume i c) = drivers c"
proof (cases "i < length (loops c)")
  case True
  show ?thesis
  proof (cases "loops c ! i")
    case (Sleeping t)
    with True show ?thesis
      using infinite_check_keeps [of "sleep t c"]
      by (simp add: resume_def split_beta sleep_def)
  next
    case Awaiting
    with True show ?thesis
      using infinite_run_keeps [of c] by (simp add: resume_def split_beta)
  qed (use True in \<open>simp_all add: resume_def\<close>)
qed (simp add: resume_def)

lemma resume_run_keeps:
  "(status (resume_run i c) = status c \<or>
      (i < length (drivers c) \<and> status (resume_run i c) = Complete)) \<and>
   length (drivers (resume_run i c)) = length (drivers c)"
proof (cases "i < length (drivers c)")
  case True
  show ?thesis
  proof (cases "drivers c ! i")
    case (DSleeping r t)
    with True show ?thesis
      using run_call_keeps [of r "sleep t c"]
      by (simp add: resume_run_def split_beta sleep_def)
  next
    case (DAwaiting r)
    with True show ?thesis
      using run_continue_keeps [of r c] by (auto simp: resume_run_def split_beta)
  next
    case DUnwinding
    with True show ?thesis
      using run_settle_keeps [of c] by (simp add: resume_run_def split_beta)
  qed (use True in \<open>simp_all add: resume_run_def\<close>)
qed (simp add: resume_run_def)

lemma stop_keeps:
  "status (state_of (stop c)) = Complete \<and> drivers (state_of (stop c)) = drivers c"
  by (simp add: stop_def complete_def Let_def split: option.splits)

lemma start_run_starts:
  "status (start_run r c) = Running \<and> startDate (start_run r c) = Some (clock c)"
  using run_enter_keeps [of r "c\<lparr> status := Running, startDate := Some (clock c) \<rparr>"]
  by (simp add: start_run_def Let_def split_beta)

lemma infinite_drv_starts:
  "status (infinite_drv c) = Running \<and> startDate (infinite_drv c) = Some (clock c) \<and>
   drivers (infinite_drv c) = drivers c"
  using infinite_run_keeps [of "c\<lparr> status := Running, startDate := Some (clock c) \<rparr>"]
  by (simp add: infinite_drv_def Let_def split_beta)

lemma perform_step:
  assumes "started c"
  shows "(starts_driver op \<longrightarrow>
            status (perform op c) = Running \<and> startDate (perform op c) = Some (clock c)) \<and>
         (\<not> starts_driver op \<longrightarrow>
            status (perform op c) = status c \<or>
            (status c = Running \<and> status (perform op c) = Complete) \<or>
            (op = Stop \<and> status c = Idle)) \<and>
         started (perform op c)"
proof (cases op)
  case (Every d)
  with assms every_keeps [of d c] show ?thesis by (simp add: started_def del: every.simps)
next
  case (Repeat count)
  with start_run_starts [of "RepeatRun count" c] show ?thesis by (simp add: started_def)
next
  case (Until fin)
  with start_run_starts [of "UntilRun fin" c] show ?thesis by (simp add: started_def)
next
  case Infinite
  with infinite_drv_starts [of c] show ?thesis by (simp add: started_def)
next
  case Stop
  with stop_keeps [of c] show ?thesis by (cases "status c") (simp_all add: started_def)
next
  case (Resume i)
  with assms resume_keeps [of i c] show ?thesis by (simp add: started_def)
next
  case (ResumeRun i)
  from resume_run_keeps [of i c] have
    st: "status (resume_run i c) = status c \<or> (i < length (drivers c) \<and> status (resume_run i c) = Complete)"
    and len: "length (drivers (resume_run i c)) = length (drivers c)" by simp_all
  have "status (resume_run i c) = status c \<or> (status c = Running \<and> status (resume_run i c) = Complete)"
  proof (cases "status c")
    case Idle
    with assms have "drivers c = []" by (simp add: started_def)
    with st show ?thesis by simp
  next
    case Running
    with st show ?thesis by auto
  next
    case Complete
    with st show ?thesis by auto
  qed
  moreover have "started (resume_run i c)"
  proof (cases "status (resume_run i c) = Idle")
    case True
    with st have "status c = Idle" by auto
    with assms have "drivers c = []" by (simp add: started_def)
    with len show ?thesis by (simp add: started_def)
  next
    case False
    then show ?thesis by (simp add: started_def)
  qed
  ultimately show ?thesis using ResumeRun by simp
qed

lemma started_fold: "started c \<Longrightarrow> started (fold perform ops c)"
proof (induction ops arbitrary: c)
  case Nil
  then show ?case by simp
next
  case (Cons op ops)
  from perform_step [OF Cons.prems, of op] have "started (perform op c)" by simp
  from Cons.IH [OF this] show ?case by simp
qed

lemma started_new: "started (new_Repeater a u t)"
  by (simp add: started_def new_Repeater_def)

subsection \<open>The awaited driver and the resumed driver agree\<close>

lemma drive_add: "drive i (m + n) c = drive i n (drive i m c)"
  by (induction m arbitrary: c) simp_all

lemma drive_one: "drive i (Suc 0) c = resume_run i c"
  by simp

lemma entered_Inr:
  assumes i: "i < length D" and a: "action c (repeated c + 1) (world c) = Inr u"
  shows "\<exists>n. drive i n (entered i D r c) =
    c\<lparr> repeated := repeated c + 1, clock := clock c + waited (delay (timeout c)),
       trace := trace c @ slept (delay (timeout c)) @ [Invoked (repeated c + 1)], world := u,
       drivers := D[i := DAwaiting r] \<rparr>"
proof (cases "delay (timeout c)")
  case None
  have "drive i 0 (entered i D r c) =
    c\<lparr> repeated := repeated c + 1, clock := clock c + waited (delay (timeout c)),
       trace := trace c @ slept (delay (timeout c)) @ [Invoked (repeated c + 1)], world := u,
       drivers := D[i := DAwaiting r] \<rparr>"
    using a by (simp add: entered_def run_enter_def run_call_def call_action_def None)
  then show ?thesis ..
next
  case (Some t)
  have "drive i (Suc 0) (entered i D r c) =
    c\<lparr> repeated := repeated c + 1, clock := clock c + waited (delay (timeout c)),
       trace := trace c @ slept (delay (timeout c)) @ [Invoked (repeated c + 1)], world := u,
       drivers := D[i := DAwaiting r] \<rparr>"
    using a i by (simp add: entered_def run_enter_def run_call_def call_action_def Some
        resume_run_def sleep_def)
  then show ?thesis ..
qed

lemma entered_Inl:
  assumes i: "i < length D" and a: "action c (repeated c + 1) (world c) = Inl e"
  shows "\<exists>n. drive i n (entered i D r c) =
    c\<lparr> repeated := repeated c + 1, clock := clock c + waited (delay (timeout c)),
       trace := trace c @ slept (delay (timeout c)) @ [Invoked (repeated c + 1), Raised e],
       drivers := D[i := DThrew e] \<rparr>"
proof (cases "delay (timeout c)")
  case None
  have "drive i (Suc 0) (entered i D r c) =
    c\<lparr> repeated := repeated c + 1, clock := clock c + waited (delay (timeout c)),
       trace := trace c @ slept (delay (timeout c)) @ [Invoked (repeated c + 1), Raised e],
       drivers := D[i := DThrew e] \<rparr>"
    using a i by (simp add: entered_def run_enter_def run_call_def call_action_def None resume_run_def)
  then show ?thesis ..
next
  case (Some t)
  have "drive i (Suc (Suc 0)) (entered i D r c) =
    c\<lparr> repeated := repeated c + 1, clock := clock c + waited (delay (timeout c)),
       trace := trace c @ slept (delay (timeout c)) @ [Invoked (repeated c + 1), Raised e],
       drivers := D[i := DThrew e] \<rparr>"
    using a i by (simp add: entered_def run_enter_def run_call_def call_action_def Some
        resume_run_def sleep_def)
  then show ?thesis ..
qed

lemma drivers_trace:
  "c\<lparr> drivers := D, trace := t \<rparr> = c\<lparr> trace := t, drivers := D \<rparr>"
  by (cases c) simp

lemma call_action_drivers:
  "call_action (c\<lparr> drivers := D \<rparr>) = (case call_action c of (s, x) \<Rightarrow> (s\<lparr> drivers := D \<rparr>, x))"
  by (cases "action c (repeated c) (world c)") (simp_all add: call_action_def)

lemma run_call_drivers:
  "run_call r (c\<lparr> drivers := D \<rparr>) = (case run_call r c of (s, d) \<Rightarrow> (s\<lparr> drivers := D \<rparr>, d))"
  by (cases "call_action c"; cases "snd (call_action c)")
     (simp_all add: run_call_def call_action_drivers)

lemma run_enter_drivers:
  "run_enter r (c\<lparr> drivers := D \<rparr>) = (case run_enter r c of (s, d) \<Rightarrow> (s\<lparr> drivers := D \<rparr>, d))"
proof (cases "delay (timeout c)")
  case None
  have "c\<lparr> drivers := D, repeated := repeated c + 1 \<rparr> =
        c\<lparr> repeated := repeated c + 1, drivers := D \<rparr>"
    by (cases c) simp
  then have "run_call r (c\<lparr> drivers := D, repeated := repeated c + 1 \<rparr>) =
        (case run_call r (c\<lparr> repeated := repeated c + 1 \<rparr>) of (s, d) \<Rightarrow> (s\<lparr> drivers := D \<rparr>, d))"
    by (simp only: run_call_drivers)
  then show ?thesis by (simp add: run_enter_def None)
next
  case (Some t)
  then show ?thesis by (simp add: run_enter_def)
qed

lemma resume_enter:
  assumes "i < length D"
  shows "(case run_enter r (c\<lparr> drivers := D[i := x] \<rparr>) of
            (s, d) \<Rightarrow> s\<lparr> drivers := (drivers s)[i := d] \<rparr>) = entered i D r c"
  by (cases "run_enter r c") (simp add: run_enter_drivers entered_def)

lemma run_agrees:
  assumes i: "i < length D"
  shows "(returned (run_awaited fuel r c) \<longrightarrow>
           (\<exists>n. drive i n (entered i D r c) =
                 (state_of (run_awaited fuel r c))\<lparr> drivers := D[i := DUnwinding] \<rparr>)) \<and>
         (\<forall>e. threw (run_awaited fuel r c) = Some e \<longrightarrow>
           (\<exists>n. drive i n (entered i D r c) =
                 (state_of (run_awaited fuel r c))\<lparr> drivers := D[i := DThrew e] \<rparr>))"
proof (induction fuel arbitrary: r c)
  case 0
  show ?case by (cases r) simp_all
next
  case (Suc fuel)
  show ?case
  proof (cases "action c (repeated c + 1) (world c)")
    case (Inl e)
    from entered_Inl [OF i Inl, of r] obtain n where
      "drive i n (entered i D r c) = (state_of (doAction c))\<lparr> drivers := D[i := DThrew e] \<rparr>"
      by (auto simp: doAction_Inl [OF Inl])
    moreover have "run_awaited (Suc fuel) r c = doAction c"
      by (cases r) (simp_all add: doAction_Inl [OF Inl])
    moreover have "threw (doAction c) = Some e" "\<not> returned (doAction c)"
      by (simp_all add: doAction_Inl [OF Inl])
    ultimately show ?thesis by auto
  next
    case (Inr u)
    define c1 where "c1 = c\<lparr> repeated := repeated c + 1, clock := clock c + waited (delay (timeout c)),
           trace := trace c @ slept (delay (timeout c)) @ [Invoked (repeated c + 1)], world := u \<rparr>"
    have da: "doAction c = Returned c1"
      by (simp add: doAction_Inr [OF Inr] c1_def)
    from entered_Inr [OF i Inr, of r] obtain n where
      n: "drive i n (entered i D r c) = c1\<lparr> drivers := D[i := DAwaiting r] \<rparr>"
      by (auto simp: c1_def)
    let ?s = "c1\<lparr> drivers := D[i := DAwaiting r] \<rparr>"
    have "drive i (n + 1) (entered i D r c) = drive i 1 (drive i n (entered i D r c))"
      by (rule drive_add)
    with n have step: "drive i (n + 1) (entered i D r c) = resume_run i ?s"
      by simp
    show ?thesis
    proof (cases r)
      case (RepeatRun count)
      show ?thesis
      proof (cases "count - 1 = 0")
        case True
        have "run_awaited (Suc fuel) r c = Returned c1"
          using True by (simp add: RepeatRun da)
        moreover have "resume_run i ?s = c1\<lparr> drivers := D[i := DUnwinding] \<rparr>"
          using True i by (simp add: resume_run_def RepeatRun)
        ultimately show ?thesis using step by (metis outcome.distinct(1) state_of.simps(1) threw.simps(1) option.distinct(1))
      next
        case False
        have ra: "run_awaited (Suc fuel) r c = run_awaited fuel (RepeatRun (count - 1)) c1"
          using False by (simp add: RepeatRun da)
        have "resume_run i ?s = entered i D (RepeatRun (count - 1)) c1"
          using False i resume_enter [OF i, where r = "RepeatRun (count - 1)" and c = c1 and x = "DAwaiting r"]
          by (simp add: resume_run_def RepeatRun)
        with step have st: "drive i (n + 1) (entered i D r c) = entered i D (RepeatRun (count - 1)) c1"
          by simp
        show ?thesis
          unfolding ra using Suc.IH [of "RepeatRun (count - 1)" c1] st
          by (metis drive_add)
      qed
    next
      case (UntilRun fin)
      show ?thesis
      proof (cases fin)
        case (Val b)
        show ?thesis
        proof (cases b)
          case True
          have "run_awaited (Suc fuel) r c = Returned c1"
            using True by (simp add: UntilRun Val da)
          moreover have "resume_run i ?s = c1\<lparr> drivers := D[i := DUnwinding] \<rparr>"
            using True i by (simp add: resume_run_def UntilRun Val)
          ultimately show ?thesis using step by (metis state_of.simps(1) threw.simps(1) option.distinct(1))
        next
          case False
          have ra: "run_awaited (Suc fuel) r c = run_awaited fuel r c1"
            using False by (simp add: UntilRun Val da)
          have "resume_run i ?s = entered i D r c1"
            using False i resume_enter [OF i, where r = "r" and c = c1 and x = "DAwaiting r"]
            by (simp add: resume_run_def UntilRun Val)
          with step have st: "drive i (n + 1) (entered i D r c) = entered i D r c1"
            by simp
          show ?thesis
            unfolding ra using Suc.IH [of r c1] st
            by (metis drive_add)
        qed
      next
        case (Fun f)
        define c2 where "c2 = c1\<lparr> trace := trace c1 @ [Checked (f (world c1))] \<rparr>"
        show ?thesis
        proof (cases "f (world c1)")
          case True
          have "run_awaited (Suc fuel) r c = Returned c2"
            using True by (simp add: UntilRun Fun da c2_def)
          moreover have "resume_run i ?s = c2\<lparr> drivers := D[i := DUnwinding] \<rparr>"
            using True i by (simp add: resume_run_def UntilRun Fun c2_def drivers_trace)
          ultimately show ?thesis using step by (metis state_of.simps(1) threw.simps(1) option.distinct(1))
        next
          case False
          have ra: "run_awaited (Suc fuel) r c = run_awaited fuel r c2"
            using False by (simp add: UntilRun Fun da c2_def)
          have "resume_run i ?s = entered i D r c2"
            using False i resume_enter [OF i, where r = "r" and c = c2 and x = "DAwaiting r"]
            by (simp add: resume_run_def UntilRun Fun c2_def drivers_trace)
          with step have st: "drive i (n + 1) (entered i D r c) = entered i D r c2"
            by simp
          show ?thesis
            unfolding ra using Suc.IH [of r c2] st
            by (metis drive_add)
        qed
      qed
    qed
  qed
qed

lemma run_enter_keeps_drivers:
  assumes "run_enter r c = (s, d)"
  shows "drivers s = drivers c"
proof -
  have "run_enter r (c\<lparr> drivers := drivers c \<rparr>) = (s\<lparr> drivers := drivers c \<rparr>, d)"
    unfolding run_enter_drivers using assms by simp
  with assms have "s = s\<lparr> drivers := drivers c \<rparr>" by simp
  then have "drivers s = drivers (s\<lparr> drivers := drivers c \<rparr>)" by simp
  then show ?thesis by simp
qed

lemma start_run_entered:
  "start_run r c =
     entered (length (drivers c)) (drivers c @ [x]) r (c\<lparr> status := Running, startDate := Some (clock c) \<rparr>)"
proof (cases "run_enter r (c\<lparr> status := Running, startDate := Some (clock c) \<rparr>)")
  case (Pair s d)
  from run_enter_keeps_drivers [OF Pair] have "drivers s = drivers c" by simp
  with Pair show ?thesis by (simp add: start_run_def entered_def)
qed

lemma run_awaited_extends: "extends c (run_awaited fuel r c)"
  by (cases r) (simp_all add: repeat_run_extends until_run_extends)

lemma awaited_await:
  "awaited fuel r c =
     await (run_awaited fuel r (c\<lparr> status := Running, startDate := Some (clock c) \<rparr>)) complete"
  by (cases r) (simp_all add: repeat_def until_def)

lemma drivers_agree:
  "(returned (awaited fuel r c) \<longrightarrow>
      (\<exists>n. drive (length (drivers c)) n (start_run r c) =
            (state_of (awaited fuel r c))\<lparr> drivers := drivers c @ [DReturned] \<rparr>)) \<and>
   (\<forall>e. threw (awaited fuel r c) = Some e \<longrightarrow>
      (\<exists>n. drive (length (drivers c)) n (start_run r c) =
            (state_of (awaited fuel r c))\<lparr> drivers := drivers c @ [DThrew e] \<rparr>))"
proof -
  define c0 where "c0 = c\<lparr> status := Running, startDate := Some (clock c) \<rparr>"
  define i where "i = length (drivers c)"
  define D where "D = drivers c @ [DReturned :: 'a driver]"
  define x where "x = run_awaited fuel r c0"
  have i: "i < length D" by (simp add: i_def D_def)
  have ext: "extends (c\<lparr> status := Running, startDate := Some (clock c) \<rparr>) x"
    unfolding x_def c0_def by (rule run_awaited_extends)
  have aw: "awaited fuel r c = await x complete"
    by (simp add: awaited_await x_def c0_def)
  have st: "start_run r c = entered i D r c0"
    unfolding i_def D_def c0_def by (rule start_run_entered)
  have upd: "D[i := d] = drivers c @ [d]" for d
    by (simp add: D_def i_def)
  note ag = run_agrees [OF i, of fuel r c0, folded x_def]
  show ?thesis
  proof (cases x)
    case (Returned c2)
    with ext have sd: "startDate c2 = Some (clock c)"
      by (simp add: extends_def frame_def)
    from ag Returned obtain n where
      n: "drive i n (entered i D r c0) = c2\<lparr> drivers := D[i := DUnwinding] \<rparr>"
      by auto
    have "drive i (n + 1) (entered i D r c0) = drive i 1 (drive i n (entered i D r c0))"
      by (rule drive_add)
    also have "\<dots> = resume_run i (c2\<lparr> drivers := D[i := DUnwinding] \<rparr>)"
      using n by simp
    also have "\<dots> = (state_of (complete c2))\<lparr> drivers := D[i := DReturned] \<rparr>"
      using i sd by (simp add: resume_run_def run_settle_def complete_def)
    finally have "drive i (n + 1) (start_run r c) =
        (state_of (awaited fuel r c))\<lparr> drivers := drivers c @ [DReturned] \<rparr>"
      by (simp add: st aw Returned upd)
    moreover have "threw (awaited fuel r c) = None"
      using sd by (simp add: aw Returned complete_def)
    ultimately show ?thesis unfolding i_def by (metis option.distinct(1))
  next
    case (Threw e c2)
    from ag Threw obtain n where
      "drive i n (entered i D r c0) = c2\<lparr> drivers := D[i := DThrew e] \<rparr>"
      by auto
    then have "drive i n (start_run r c) =
        (state_of (awaited fuel r c))\<lparr> drivers := drivers c @ [DThrew e] \<rparr>"
      by (simp add: st aw Threw upd)
    moreover have "\<not> returned (awaited fuel r c)" "threw (awaited fuel r c) = Some e"
      by (simp_all add: aw Threw)
    ultimately show ?thesis unfolding i_def by (metis option.inject)
  next
    case (Pending c2)
    then show ?thesis by (simp add: aw)
  qed
qed

subsection \<open>Unfolding a run on a concrete input\<close>

lemmas run_defs = new_Repeater_def repeat_def until_def doAction_def invoke_def sleep_def
  complete_def stop_def infinite_drv_def infinite_run_def infinite_check_def resume_def
  call_action_def start_run_def run_enter_def run_call_def run_settle_def resume_run_def
  events_since_def Let_def

lemmas parse_defs = parseInt_def utf16_def isWhiteSpace_def isRadixDigit_def digitValue_def
  digitsValue_def toNumber_def endsWith_def Let_def

section \<open>The claims\<close>

subsection \<open>C1: repeat(N) calls the action N times, with 1, 2, ..., N\<close>

text \<open>
  Claim C1. On an instance whose counter is 0 (a new one, with or without \<open>every\<close>),
  and with an action that does not fail, \<open>repeat(N)\<close> for a positive \<open>N\<close>, awaited, calls
  the action with \<open>1, 2, ..., N\<close> in this order and makes no other call; the user
  state it leaves is the one these \<open>N\<close> calls of the action produce, each applied to
  the state the one before left. The promise is resolved exactly when all \<open>N\<close>
  iterations have run: observed after \<open>fuel\<close> iterations the calls made are
  \<open>1, ..., min fuel N\<close>, and the driver has returned if and only if \<open>N \<le> fuel\<close>. It
  never rejects.
\<close>

theorem repeat_invokes_1_to_N:
  assumes "0 < N" and "\<forall>k u. \<exists>u'. action c k u = Inr u'" and "repeated c = 0"
  shows "calls (events_since c (state_of (repeat fuel N c))) = [1 .. min (int fuel) N] \<and>
         after_calls (action c) 0 (nat (min (int fuel) N)) (world c) =
           Inr (world (state_of (repeat fuel N c))) \<and>
         (returned (repeat fuel N c) \<longleftrightarrow> N \<le> int fuel) \<and>
         threw (repeat fuel N c) = None"
proof -
  let ?c1 = "c\<lparr> status := Running, startDate := Some (clock c) \<rparr>"
  let ?x = "repeat_run fuel N ?c1"
  have ext: "extends ?c1 ?x" by (rule repeat_run_extends)
  have act: "\<forall>k u. \<exists>u'. action ?c1 k u = Inr u'" using assms(2) by simp
  from repeat_run_world [OF assms(1) act, of fuel] obtain c2 where
    x: "?x = (if N \<le> int fuel then Returned c2 else Pending c2)"
    and r: "repeated c2 = min (int fuel) N"
    and w: "after_calls (action c) 0 (nat (min (int fuel) N)) (world c) = Inr (world c2)"
    using assms(3) by auto
  from ext obtain es where es: "trace (state_of ?x) = trace c @ es"
    "calls es = [1 .. repeated (state_of ?x)]"
    using assms(3) by (auto simp: extends_def)
  have st: "state_of ?x = c2" using x by simp
  have rep: "repeat fuel N c = await ?x complete" by (simp add: repeat_def)
  from driver_not_Returned [OF ext] have
    a: "returned (await ?x complete) \<longleftrightarrow> returned ?x"
    and b: "threw (await ?x complete) = threw ?x"
    and t: "trace (state_of (await ?x complete)) = trace (state_of ?x)" by simp_all
  note v = driver_world [OF ext]
  have "events_since c (state_of (repeat fuel N c)) = es"
    by (rule events_since_append) (simp add: rep t es)
  moreover have "returned ?x \<longleftrightarrow> N \<le> int fuel" using x by simp
  moreover have "threw ?x = None" using x by simp
  ultimately show ?thesis using es(2) st r a b rep w v by simp
qed

theorem repeat_invokes_1_to_N_witness:
  "(0::int) < 3 \<and> repeated (new_Repeater (\<lambda>n u. Inr (u @ [n])) [] 0) = 0 \<and>
   calls (events_since (new_Repeater (\<lambda>n u. Inr (u @ [n])) [] 0)
     (state_of (repeat 5 3 (new_Repeater (\<lambda>n u. Inr (u @ [n])) [] 0)))) = [1, 2, 3] \<and>
   world (state_of (repeat 5 3 (new_Repeater (\<lambda>n u. Inr (u @ [n])) [] 0))) = [1, 2, 3] \<and>
   returned (repeat 5 3 (new_Repeater (\<lambda>n u. Inr (u @ [n])) [] 0)) \<and>
   \<not> returned (repeat 2 3 (new_Repeater (\<lambda>n u. Inr (u @ [n])) [] 0)) \<and>
   world (state_of (repeat 2 3 (new_Repeater (\<lambda>n u. Inr (u @ [n])) [] 0))) = [1, 2]"
  using repeat_invokes_1_to_N [where N = 3 and c = "new_Repeater (\<lambda>n u. Inr (u @ [n])) [] 0" and fuel = 5]
    repeat_invokes_1_to_N [where N = 3 and c = "new_Repeater (\<lambda>n u. Inr (u @ [n])) [] 0" and fuel = 2]
  by (simp add: new_Repeater_def upto_rec1 eval_nat_numeral)

subsection \<open>C2: until calls the action, then asks the predicate\<close>

text \<open>
  Claim C2. For every predicate function \<open>f\<close>, every state and every number of
  iterations observed, \<open>until(f)\<close>, awaited, has made some number \<open>k\<close> of calls of the
  action in a row. After each of the first \<open>k - 1\<close> calls the predicate, read on the
  user state that call left, was false. When the driver has returned, \<open>k \<ge> 1\<close>, the
  predicate is true on the user state the \<open>k\<close>-th call left, which is the final one,
  and the status is \<open>complete\<close>: the action is called at least once, the predicate is
  read after each call and not before, and the first true answer ends the run. When
  the driver has rejected, the \<open>k\<close>-th call failed. When it is still pending, \<open>k\<close> is
  the number of iterations observed and the predicate was false after each. The
  trace shows the same: rounds of one call and one false check, then the last call
  with the true check (or with its failure).
\<close>

theorem until_invokes_then_checks:
  "\<exists>k. k \<le> fuel \<and>
     (\<forall>j. 0 < j \<and> j < k \<longrightarrow>
        (\<exists>v. after_calls (action c) (repeated c) j (world c) = Inr v \<and> \<not> f v)) \<and>
     (case until fuel (Fun f) c of
        Returned c' \<Rightarrow> 0 < k \<and> status c' = Complete \<and>
          steps (events_since c c') =
            rounds (repeated c) (k - 1) @ [Invoked (repeated c + int k), Checked True] \<and>
          after_calls (action c) (repeated c) k (world c) = Inr (world c') \<and> f (world c')
      | Threw e c' \<Rightarrow> 0 < k \<and>
          steps (events_since c c') =
            rounds (repeated c) (k - 1) @ [Invoked (repeated c + int k), Raised e] \<and>
          after_calls (action c) (repeated c) k (world c) = Inl e \<and>
          after_calls (action c) (repeated c) (k - 1) (world c) = Inr (world c')
      | Pending c' \<Rightarrow> k = fuel \<and> steps (events_since c c') = rounds (repeated c) fuel \<and>
          after_calls (action c) (repeated c) fuel (world c) = Inr (world c') \<and>
          (0 < fuel \<longrightarrow> \<not> f (world c')))"
proof -
  let ?c1 = "c\<lparr> status := Running, startDate := Some (clock c) \<rparr>"
  let ?x = "until_run fuel (Fun f) ?c1"
  have ext: "extends ?c1 ?x" by (rule until_run_extends)
  have unt: "until fuel (Fun f) c = await ?x complete" by (simp add: until_def)
  from until_run_shape [of fuel f ?c1] obtain es where
    es: "trace (state_of ?x) = trace c @ es"
      "until_shape (action c) f (repeated c) (world c) fuel ?x es" by auto
  from es(2) obtain k where k: "k \<le> fuel"
    "\<forall>j. 0 < j \<and> j < k \<longrightarrow>
        (\<exists>v. after_calls (action c) (repeated c) j (world c) = Inr v \<and> \<not> f v)"
    "case ?x of
          Returned c' \<Rightarrow> 0 < k \<and>
            steps es = rounds (repeated c) (k - 1) @ [Invoked (repeated c + int k), Checked True] \<and>
            after_calls (action c) (repeated c) k (world c) = Inr (world c') \<and> f (world c')
        | Threw e c' \<Rightarrow> 0 < k \<and>
            steps es = rounds (repeated c) (k - 1) @ [Invoked (repeated c + int k), Raised e] \<and>
            after_calls (action c) (repeated c) k (world c) = Inl e \<and>
            after_calls (action c) (repeated c) (k - 1) (world c) = Inr (world c')
        | Pending c' \<Rightarrow> k = fuel \<and> steps es = rounds (repeated c) fuel \<and>
            after_calls (action c) (repeated c) fuel (world c) = Inr (world c') \<and>
            (0 < fuel \<longrightarrow> \<not> f (world c'))"
    unfolding until_shape_def by blast
  have ev: "events_since c (state_of ?x) = es" by (rule events_since_append [OF es(1)])
  have "case until fuel (Fun f) c of
        Returned c' \<Rightarrow> 0 < k \<and> status c' = Complete \<and>
          steps (events_since c c') =
            rounds (repeated c) (k - 1) @ [Invoked (repeated c + int k), Checked True] \<and>
          after_calls (action c) (repeated c) k (world c) = Inr (world c') \<and> f (world c')
      | Threw e c' \<Rightarrow> 0 < k \<and>
          steps (events_since c c') =
            rounds (repeated c) (k - 1) @ [Invoked (repeated c + int k), Raised e] \<and>
          after_calls (action c) (repeated c) k (world c) = Inl e \<and>
          after_calls (action c) (repeated c) (k - 1) (world c) = Inr (world c')
      | Pending c' \<Rightarrow> k = fuel \<and> steps (events_since c c') = rounds (repeated c) fuel \<and>
          after_calls (action c) (repeated c) fuel (world c) = Inr (world c') \<and>
          (0 < fuel \<longrightarrow> \<not> f (world c'))"
  proof (cases ?x)
    case (Returned c2)
    with ext have sd: "startDate c2 = Some (clock c)" by (simp add: extends_def frame_def)
    show ?thesis
      using k(3) ev unfolding unt Returned
      by (simp add: complete_started [OF sd] events_since_def)
  next
    case (Threw e c2)
    show ?thesis using k(3) ev unfolding unt Threw by simp
  next
    case (Pending c2)
    show ?thesis using k(3) ev unfolding unt Pending by simp
  qed
  with k(1,2) show ?thesis by blast
qed

theorem until_invokes_then_checks_witness:
  "returned (until 10 (Fun (\<lambda>u. 3 \<le> length u)) (new_Repeater (\<lambda>n u. Inr (u @ [n])) [] 0)) \<and>
   events_since (new_Repeater (\<lambda>n u. Inr (u @ [n])) [] 0)
     (state_of (until 10 (Fun (\<lambda>u. 3 \<le> length u)) (new_Repeater (\<lambda>n u. Inr (u @ [n])) [] 0))) =
     [Invoked 1, Checked False, Invoked 2, Checked False, Invoked 3, Checked True] \<and>
   world (state_of (until 10 (Fun (\<lambda>u. 3 \<le> length u)) (new_Repeater (\<lambda>n u. Inr (u @ [n])) [] 0))) =
     [1, 2, 3] \<and>
   (\<exists>k. k \<le> 10 \<and> 0 < k \<and>
      after_calls (\<lambda>n u. Inr (u @ [n])) 0 k [] = (Inr [1, 2, 3] :: error + int list) \<and>
      (\<forall>j. 0 < j \<and> j < k \<longrightarrow>
        (\<exists>v. after_calls (\<lambda>n u. Inr (u @ [n])) 0 j [] = (Inr v :: error + int list) \<and> \<not> 3 \<le> length v)))"
proof -
  let ?c = "new_Repeater (\<lambda>n u. Inr (u @ [n])) [] 0 :: int list system"
  let ?f = "\<lambda>u :: int list. 3 \<le> length u"
  have r: "returned (until 10 (Fun ?f) ?c)"
    by (simp add: run_defs eval_nat_numeral)
  have e: "events_since ?c (state_of (until 10 (Fun ?f) ?c)) =
     [Invoked 1, Checked False, Invoked 2, Checked False, Invoked 3, Checked True]"
    by (simp add: run_defs eval_nat_numeral)
  have w: "world (state_of (until 10 (Fun ?f) ?c)) = [1, 2, 3]"
    by (simp add: run_defs eval_nat_numeral)
  from r obtain c' where c': "until 10 (Fun ?f) ?c = Returned c'"
    by (cases "until 10 (Fun ?f) ?c") simp_all
  have z: "repeated ?c = 0" "action ?c = (\<lambda>n u. Inr (u @ [n]))" "world ?c = []"
    by (simp_all add: new_Repeater_def)
  from w c' have w': "world c' = [1, 2, 3]" by simp
  from until_invokes_then_checks [where fuel = 10 and f = ?f and c = ?c]
  have "\<exists>k. k \<le> 10 \<and> 0 < k \<and>
      after_calls (\<lambda>n u. Inr (u @ [n])) 0 k [] = (Inr [1, 2, 3] :: error + int list) \<and>
      (\<forall>j. 0 < j \<and> j < k \<longrightarrow>
        (\<exists>v. after_calls (\<lambda>n u. Inr (u @ [n])) 0 j [] = (Inr v :: error + int list) \<and> \<not> 3 \<le> length v))"
    unfolding c' z outcome.case w' by blast
  with r e w show ?thesis by (intro conjI)
qed

subsection \<open>C3: repeat with a count of zero or less\<close>

text \<open>
  Claim C3 says that \<open>repeat(count)\<close> with \<open>count \<le> 0\<close> calls the action not at all. The
  code does otherwise: \<open>run\<close> calls the action before it decrements and tests
  \<open>count\<close>, and a count below zero is never zero. The action is called at once, with
  the counter plus one, and the driver never returns, however many iterations run.
\<close>

theorem repeat_nonpositive_count_invokes:
  assumes "count \<le> 0"
  shows "(\<forall>fuel. \<not> returned (repeat fuel count c)) \<and>
         (\<forall>fuel. \<exists>ns. calls (events_since c (state_of (repeat (Suc fuel) count c))) = (repeated c + 1) # ns)"
proof -
  let ?c1 = "c\<lparr> status := Running, startDate := Some (clock c) \<rparr>"
  have ext: "extends ?c1 (repeat_run fuel count ?c1)" for fuel by (rule repeat_run_extends)
  have rep: "repeat fuel count c = await (repeat_run fuel count ?c1) complete" for fuel
    by (simp add: repeat_def)
  have 1: "\<not> returned (repeat fuel count c)" for fuel
    using driver_not_Returned [OF ext, of fuel] repeat_run_nonpositive [OF assms, of fuel ?c1]
    by (simp add: rep)
  have 2: "\<exists>ns. calls (events_since c (state_of (repeat (Suc fuel) count c))) = (repeated c + 1) # ns" for fuel
  proof -
    from repeat_run_first_call [of fuel count ?c1] obtain es where
      "trace (state_of (repeat_run (Suc fuel) count ?c1)) =
         trace c @ slept (delay (timeout c)) @ Invoked (repeated c + 1) # es" by auto
    then have "events_since c (state_of (repeat (Suc fuel) count c)) =
        slept (delay (timeout c)) @ Invoked (repeated c + 1) # es"
      using driver_not_Returned [OF ext, of "Suc fuel"]
      by (intro events_since_append) (simp add: rep)
    then show ?thesis by (cases "delay (timeout c)") simp_all
  qed
  from 1 2 show ?thesis by blast
qed

theorem repeat_nonpositive_count_invokes_witness:
  "(0::int) \<le> 0 \<and>
   \<not> returned (repeat 4 0 (new_Repeater (\<lambda>n u. Inr (u @ [n])) [] 0)) \<and>
   (\<exists>ns. calls (events_since (new_Repeater (\<lambda>n u. Inr (u @ [n])) [] 0)
      (state_of (repeat (Suc 0) 0 (new_Repeater (\<lambda>n u. Inr (u @ [n])) [] 0)))) = 1 # ns)"
  using repeat_nonpositive_count_invokes [where count = 0 and c = "new_Repeater (\<lambda>n u. Inr (u @ [n])) [] 0"]
  by (simp add: new_Repeater_def)

subsection \<open>C4: the background loop after stop()\<close>

text \<open>
  Claim C4. Let \<open>stop()\<close> be called while the \<open>i\<close>-th background loop exists. If the loop
  was waiting in its delay, then on resumption the delay has elapsed, the action is
  not called and the loop is finished. If the loop was waiting for the action, the
  next iteration first applies the configured delay (the loop sleeps, the stop flag
  untested), without calling the action. After at most two resumptions the loop is
  over, and whatever loops are resumed after \<open>stop()\<close>, in whatever order, the action
  is never called again.
\<close>

theorem infinite_after_stop:
  assumes "i < length (loops c0)"
  shows "(loops c0 ! i = Sleeping t \<longrightarrow>
            trace (resume i (state_of (stop c0))) = trace c0 @ [Slept t] \<and>
            loops (resume i (state_of (stop c0))) ! i = Finished) \<and>
         (loops c0 ! i = Awaiting \<longrightarrow>
            trace (resume i (state_of (stop c0))) = trace c0 \<and>
            loops (resume i (state_of (stop c0))) ! i =
              (case delay (timeout c0) of Some t \<Rightarrow> Sleeping t | None \<Rightarrow> Finished)) \<and>
         over (loops (resume i (resume i (state_of (stop c0)))) ! i) \<and>
         (\<forall>js. calls (trace (fold resume js (state_of (stop c0)))) = calls (trace c0))"
proof -
  let ?s = "state_of (stop c0)"
  have st: "stopped ?s" "loops ?s = loops c0" "trace ?s = trace c0" "timeout ?s = timeout c0"
    using stop_state [of c0] by simp_all
  have i: "i < length (loops ?s)" using assms st by simp
  have 1: "trace (resume i ?s) = trace c0 @ [Slept t] \<and> loops (resume i ?s) ! i = Finished"
    if "loops c0 ! i = Sleeping t"
  proof -
    from that st have "loops ?s ! i = Sleeping t" by simp
    from resume_Sleeping_stopped [OF i this st(1)] show ?thesis using assms st by simp
  qed
  have 2: "trace (resume i ?s) = trace c0 \<and> loops (resume i ?s) ! i =
              (case delay (timeout c0) of Some t \<Rightarrow> Sleeping t | None \<Rightarrow> Finished)"
    if "loops c0 ! i = Awaiting"
  proof -
    from that st have "loops ?s ! i = Awaiting" by simp
    from resume_Awaiting_stopped [OF i this st(1)] show ?thesis using assms st by simp
  qed
  have 3: "over (loops (resume i (resume i ?s)) ! i)"
  proof (cases "loops ?s ! i")
    case (Sleeping t)
    from resume_Sleeping_stopped [OF i this st(1)]
    have r: "resume i ?s = ?s\<lparr> clock := clock ?s + max 0 t, trace := trace ?s @ [Slept t],
            loops := (loops ?s)[i := Finished] \<rparr>" .
    have "resume i (resume i ?s) = resume i ?s"
      by (rule resume_over) (simp add: r i)
    then show ?thesis using i by (simp add: r)
  next
    case Awaiting
    from resume_Awaiting_stopped [OF i this st(1)]
    have r: "resume i ?s = ?s\<lparr> repeated := repeated ?s + 1,
            loops := (loops ?s)[i := (case delay (timeout ?s) of Some t \<Rightarrow> Sleeping t | None \<Rightarrow> Finished)] \<rparr>" .
    show ?thesis
    proof (cases "delay (timeout ?s)")
      case None
      have "resume i (resume i ?s) = resume i ?s"
        by (rule resume_over) (simp add: r i None)
      then show ?thesis using i by (simp add: r None)
    next
      case (Some t)
      have a: "i < length (loops (resume i ?s))" "loops (resume i ?s) ! i = Sleeping t"
        "stopped (resume i ?s)"
        using i st(1) by (simp_all add: r Some)
      from resume_Sleeping_stopped [OF a] a(1) show ?thesis by simp
    qed
  next
    case (Rejecting e)
    from resume_Rejecting [OF i this]
    have r: "resume i ?s = ?s\<lparr> trace := trace ?s @ [Raised e],
            loops := (loops ?s)[i := Failed e] \<rparr>" .
    have "resume i (resume i ?s) = resume i ?s"
      by (rule resume_over) (simp add: r i)
    then show ?thesis using i by (simp add: r)
  next
    case Finished
    then have "resume i ?s = ?s" by (intro resume_over) simp
    with Finished show ?thesis by simp
  next
    case (Failed e)
    then have "resume i ?s = ?s" by (intro resume_over) simp
    with Failed show ?thesis by simp
  qed
  have 4: "calls (trace (fold resume js ?s)) = calls (trace c0)" for js
    using fold_resume_stopped [OF st(1), of js] st(3) by simp
  from 1 2 3 4 show ?thesis by blast
qed

theorem infinite_after_stop_witness:
  "0 < length (loops (infinite_drv (every (Ms (Num 10)) (new_Repeater (\<lambda>n u. Inr (u @ [n])) [] 0)))) \<and>
   loops (infinite_drv (every (Ms (Num 10)) (new_Repeater (\<lambda>n u. Inr (u @ [n])) [] 0))) ! 0 = Sleeping 10 \<and>
   trace (resume 0 (state_of (stop (infinite_drv (every (Ms (Num 10)) (new_Repeater (\<lambda>n u. Inr (u @ [n])) [] 0)))))) =
     [Slept 10] \<and>
   loops (resume 0 (state_of (stop (infinite_drv (every (Ms (Num 10)) (new_Repeater (\<lambda>n u. Inr (u @ [n])) [] 0)))))) ! 0 =
     Finished \<and>
   loops (resume 0 (infinite_drv (every (Ms (Num 10)) (new_Repeater (\<lambda>n u. Inr (u @ [n])) [] 0)))) ! 0 = Awaiting \<and>
   loops (resume 0 (state_of (stop (resume 0 (infinite_drv (every (Ms (Num 10))
     (new_Repeater (\<lambda>n u. Inr (u @ [n])) [] 0))))))) ! 0 = Sleeping 10 \<and>
   calls (trace (fold resume [0, 0, 0] (state_of (stop (resume 0 (infinite_drv (every (Ms (Num 10))
     (new_Repeater (\<lambda>n u. Inr (u @ [n])) [] 0)))))))) = [1]"
proof -
  let ?c = "infinite_drv (every (Ms (Num 10)) (new_Repeater (\<lambda>n u. Inr (u @ [n])) [] 0 :: int list system))"
  have a: "loops ?c = [Sleeping 10]" "trace ?c = []"
    by (simp_all add: run_defs)
  have b: "loops (resume 0 ?c) = [Awaiting]" "trace (resume 0 ?c) = [Slept 10, Invoked 1]"
    "delay (timeout (resume 0 ?c)) = Some 10"
    by (simp_all add: run_defs)
  from a have a0: "0 < length (loops ?c)" by simp
  from b have b0: "0 < length (loops (resume 0 ?c))" by simp
  note w1 = infinite_after_stop [OF a0, where t = 10] and w2 = infinite_after_stop [OF b0, where t = 10]
  from w2 have "\<forall>js. calls (trace (fold resume js (state_of (stop (resume 0 ?c))))) =
      calls (trace (resume 0 ?c))" by (elim conjE)
  then have f: "calls (trace (fold resume [0, 0, 0] (state_of (stop (resume 0 ?c))))) =
      calls (trace (resume 0 ?c))" by (rule spec)
  from w1 w2 f show ?thesis
    unfolding a b by (simp del: fold_simps)
qed

subsection \<open>C5: the state after a driver has completed\<close>

text \<open>
  Claim C5. When \<open>repeat\<close> or \<open>until\<close> returns, the status is \<open>complete\<close>, the counter is
  0, \<open>startDate\<close> and \<open>endDate\<close> are set and \<open>runTime\<close> is their difference.
\<close>

theorem driver_completion_state:
  assumes "repeat fuel n c = Returned c' \<or> until fuel fin c = Returned c'"
  shows "status c' = Complete \<and> repeated c' = 0 \<and>
    (\<exists>s e. startDate c' = Some s \<and> endDate c' = Some e \<and> runTime c' = Some (e - s))"
proof -
  from assms obtain x where ext: "extends (c\<lparr> status := Running, startDate := Some (clock c) \<rparr>) x"
    and ret: "await x complete = Returned c'"
    unfolding repeat_def until_def Let_def
    using repeat_run_extends until_run_extends by blast
  from driver_Returned [OF ext ret] show ?thesis by auto
qed

theorem driver_completion_state_witness:
  "returned (repeat 5 3 (every (Ms (Num 7)) (new_Repeater (\<lambda>n u. Inr (u @ [n])) [] 100))) \<and>
   status (state_of (repeat 5 3 (every (Ms (Num 7)) (new_Repeater (\<lambda>n u. Inr (u @ [n])) [] 100)))) = Complete \<and>
   repeated (state_of (repeat 5 3 (every (Ms (Num 7)) (new_Repeater (\<lambda>n u. Inr (u @ [n])) [] 100)))) = 0 \<and>
   (\<exists>s e. startDate (state_of (repeat 5 3 (every (Ms (Num 7)) (new_Repeater (\<lambda>n u. Inr (u @ [n])) [] 100)))) = Some s \<and>
          endDate (state_of (repeat 5 3 (every (Ms (Num 7)) (new_Repeater (\<lambda>n u. Inr (u @ [n])) [] 100)))) = Some e \<and>
          runTime (state_of (repeat 5 3 (every (Ms (Num 7)) (new_Repeater (\<lambda>n u. Inr (u @ [n])) [] 100)))) = Some (e - s))"
proof -
  let ?c = "every (Ms (Num 7)) (new_Repeater (\<lambda>n u. Inr (u @ [n])) [] 100 :: int list system)"
  have r: "returned (repeat 5 3 ?c)"
    by (simp add: run_defs eval_nat_numeral)
  then have "repeat 5 3 ?c = Returned (state_of (repeat 5 3 ?c))"
    by (cases "repeat 5 3 ?c") simp_all
  then have "repeat 5 3 ?c = Returned (state_of (repeat 5 3 ?c)) \<or>
      until 5 (Val True) ?c = Returned (state_of (repeat 5 3 ?c))" ..
  from driver_completion_state [OF this] r show ?thesis by simp
qed

subsection \<open>C6: durations given as strings\<close>

text \<open>
  Claim C6 as stated, for every numeric magnitude, fails on a magnitude with a
  fraction: \<open>parseInt\<close> reads the digits before the point, so \<open>every('1.5s')\<close> stores
  1000 as \<open>every(1000)\<close> does, not 1500, and \<open>every('0.5s')\<close> stores 0, which is no
  delay at all.
\<close>

theorem every_string_durations_counterexample:
  "every (Str (utf16 ''1.5s'')) (new_Repeater (\<lambda>n u. Inr u) () 0) =
     every (Ms (Num 1000)) (new_Repeater (\<lambda>n u. Inr u) () 0) \<and>
   timeout (every (Str (utf16 ''1.5s'')) (new_Repeater (\<lambda>n u. Inr u) () 0)) = Some (Num 1000) \<and>
   every (Str (utf16 ''1.5s'')) (new_Repeater (\<lambda>n u. Inr u) () 0) \<noteq>
     every (Ms (Num 1500)) (new_Repeater (\<lambda>n u. Inr u) () 0) \<and>
   timeout (every (Str (utf16 ''0.5s'')) (new_Repeater (\<lambda>n u. Inr u) () 0)) = Some (Num 0) \<and>
   delay (timeout (every (Str (utf16 ''0.5s'')) (new_Repeater (\<lambda>n u. Inr u) () 0))) = None"
proof -
  have p: "parseInt (utf16 ''1.5s'') = Num 1" "parseInt (utf16 ''0.5s'') = Num 0"
    by (simp_all add: parse_defs)
  have e: "endsWith (utf16 ''1.5s'') (utf16 ''s'')" "\<not> endsWith (utf16 ''1.5s'') (utf16 ''ms'')"
    "endsWith (utf16 ''0.5s'') (utf16 ''s'')" "\<not> endsWith (utf16 ''0.5s'') (utf16 ''ms'')"
    by (simp_all add: endsWith_def utf16_def)
  show ?thesis
    by (simp add: p e toNumber_def new_Repeater_def)
qed

text \<open>
  Claim C6, amended. \<open>every(n)\<close> stores \<open>n\<close> as the delay and changes nothing else;
  \<open>every('2s')\<close>, \<open>every('500ms')\<close> and \<open>every('1m')\<close> store 2000, 500 and 60000. In
  general, for a magnitude written as a whole number (one or more decimal digits),
  the suffix \<open>ms\<close> stores the magnitude, \<open>s\<close> a thousand times and \<open>m\<close> sixty thousand
  times the magnitude, as long as the delay stored is at most \<open>2^53\<close> milliseconds
  (beyond, the code rounds).
\<close>

theorem every_string_durations:
  "every (Ms n) c = c\<lparr> timeout := Some n \<rparr> \<and>
   every (Str (utf16 ''2s'')) c = c\<lparr> timeout := Some (Num 2000) \<rparr> \<and>
   every (Str (utf16 ''500ms'')) c = c\<lparr> timeout := Some (Num 500) \<rparr> \<and>
   every (Str (utf16 ''1m'')) c = c\<lparr> timeout := Some (Num 60000) \<rparr> \<and>
   (ds \<noteq> [] \<and> (\<forall>d\<in>set ds. isDecimalDigit d) \<and> magnitude ds \<le> 9007199254740992 \<longrightarrow>
      every (Str (ds @ utf16 ''ms'')) c = c\<lparr> timeout := Some (Num (magnitude ds)) \<rparr>) \<and>
   (ds \<noteq> [] \<and> (\<forall>d\<in>set ds. isDecimalDigit d) \<and> magnitude ds * 1000 \<le> 9007199254740992 \<longrightarrow>
      every (Str (ds @ utf16 ''s'')) c = c\<lparr> timeout := Some (Num (magnitude ds * 1000)) \<rparr>) \<and>
   (ds \<noteq> [] \<and> (\<forall>d\<in>set ds. isDecimalDigit d) \<and> magnitude ds * 60000 \<le> 9007199254740992 \<longrightarrow>
      every (Str (ds @ utf16 ''m'')) c = c\<lparr> timeout := Some (Num (magnitude ds * 60000)) \<rparr>)"
proof -
  have ms: "every (Str (ds @ utf16 ''ms'')) c = c\<lparr> timeout := Some (Num (magnitude ds)) \<rparr>"
    if ne: "ds \<noteq> []" and dig: "\<forall>d\<in>set ds. isDecimalDigit d"
      and le: "magnitude ds \<le> 9007199254740992" for ds
    unfolding every_digits(1) [OF ne dig]
    using toNumber_safe [OF magnitude_nonneg [OF dig] le] by simp
  have s: "every (Str (ds @ utf16 ''s'')) c = c\<lparr> timeout := Some (Num (magnitude ds * 1000)) \<rparr>"
    if ne: "ds \<noteq> []" and dig: "\<forall>d\<in>set ds. isDecimalDigit d"
      and le: "magnitude ds * 1000 \<le> 9007199254740992" for ds
  proof -
    from magnitude_nonneg [OF dig] le have a: "toNumber (magnitude ds) = Num (magnitude ds)"
      by (intro toNumber_safe) simp_all
    from magnitude_nonneg [OF dig] le have b: "toNumber (magnitude ds * 1000) = Num (magnitude ds * 1000)"
      by (intro toNumber_safe) simp_all
    show ?thesis unfolding every_digits(2) [OF ne dig] a by (simp add: b)
  qed
  have m: "every (Str (ds @ utf16 ''m'')) c = c\<lparr> timeout := Some (Num (magnitude ds * 60000)) \<rparr>"
    if ne: "ds \<noteq> []" and dig: "\<forall>d\<in>set ds. isDecimalDigit d"
      and le: "magnitude ds * 60000 \<le> 9007199254740992" for ds
  proof -
    from magnitude_nonneg [OF dig] le have a: "toNumber (magnitude ds) = Num (magnitude ds)"
      by (intro toNumber_safe) simp_all
    from magnitude_nonneg [OF dig] le have b: "toNumber (magnitude ds * 1000) = Num (magnitude ds * 1000)"
      by (intro toNumber_safe) simp_all
    from magnitude_nonneg [OF dig] le
    have t: "times_num (times_num (Num (magnitude ds)) 1000) 60 = Num (magnitude ds * 60000)"
      by (simp add: toNumber_def)
    show ?thesis unfolding every_digits(3) [OF ne dig] a t ..
  qed
  have d2: "utf16 ''2'' \<noteq> []" "\<forall>d\<in>set (utf16 ''2''). isDecimalDigit d" "magnitude (utf16 ''2'') = 2"
    and d500: "utf16 ''500'' \<noteq> []" "\<forall>d\<in>set (utf16 ''500''). isDecimalDigit d" "magnitude (utf16 ''500'') = 500"
    and d1: "utf16 ''1'' \<noteq> []" "\<forall>d\<in>set (utf16 ''1''). isDecimalDigit d" "magnitude (utf16 ''1'') = 1"
    by (simp_all add: isDecimalDigit_def utf16_def magnitude_def)
  have l2: "utf16 ''2s'' = utf16 ''2'' @ utf16 ''s''" and l500: "utf16 ''500ms'' = utf16 ''500'' @ utf16 ''ms''"
    and l1: "utf16 ''1m'' = utf16 ''1'' @ utf16 ''m''"
    by (simp_all add: utf16_def)
  have e0: "every (Ms n) c = c\<lparr> timeout := Some n \<rparr>" by simp
  have e1: "every (Str (utf16 ''2s'')) c = c\<lparr> timeout := Some (Num 2000) \<rparr>"
    unfolding l2 using s [OF d2(1,2)] by (simp add: d2(3) del: every.simps)
  have e2: "every (Str (utf16 ''500ms'')) c = c\<lparr> timeout := Some (Num 500) \<rparr>"
    unfolding l500 using ms [OF d500(1,2)] by (simp add: d500(3) del: every.simps)
  have e3: "every (Str (utf16 ''1m'')) c = c\<lparr> timeout := Some (Num 60000) \<rparr>"
    unfolding l1 using m [OF d1(1,2)] by (simp add: d1(3) del: every.simps)
  have g1: "ds \<noteq> [] \<and> (\<forall>d\<in>set ds. isDecimalDigit d) \<and> magnitude ds \<le> 9007199254740992 \<longrightarrow>
      every (Str (ds @ utf16 ''ms'')) c = c\<lparr> timeout := Some (Num (magnitude ds)) \<rparr>"
    using ms by blast
  have g2: "ds \<noteq> [] \<and> (\<forall>d\<in>set ds. isDecimalDigit d) \<and> magnitude ds * 1000 \<le> 9007199254740992 \<longrightarrow>
      every (Str (ds @ utf16 ''s'')) c = c\<lparr> timeout := Some (Num (magnitude ds * 1000)) \<rparr>"
    using s by blast
  have g3: "ds \<noteq> [] \<and> (\<forall>d\<in>set ds. isDecimalDigit d) \<and> magnitude ds * 60000 \<le> 9007199254740992 \<longrightarrow>
      every (Str (ds @ utf16 ''m'')) c = c\<lparr> timeout := Some (Num (magnitude ds * 60000)) \<rparr>"
    using m by blast
  from e0 e1 e2 e3 g1 g2 g3 show ?thesis by (intro conjI)
qed

theorem every_string_durations_witness:
  "utf16 ''15'' \<noteq> [] \<and> isDecimalDigit 49 \<and> isDecimalDigit 53 \<and>
   magnitude (utf16 ''15'') * 60000 \<le> 9007199254740992 \<and>
   timeout (every (Str (utf16 ''15ms'')) (new_Repeater (\<lambda>n u. Inr u) () 0)) = Some (Num 15) \<and>
   timeout (every (Str (utf16 ''15s'')) (new_Repeater (\<lambda>n u. Inr u) () 0)) = Some (Num 15000) \<and>
   timeout (every (Str (utf16 ''15m'')) (new_Repeater (\<lambda>n u. Inr u) () 0)) = Some (Num 900000) \<and>
   timeout (every (Ms (Num 7)) (new_Repeater (\<lambda>n u. Inr u) () 0)) = Some (Num 7) \<and>
   timeout (new_Repeater (\<lambda>n u. Inr u) () 0) = None"
proof -
  let ?c = "new_Repeater (\<lambda>n u. Inr u) () 0 :: unit system"
  have d: "utf16 ''15'' \<noteq> []" "\<forall>d\<in>set (utf16 ''15''). isDecimalDigit d" "magnitude (utf16 ''15'') = 15"
    "isDecimalDigit 49" "isDecimalDigit 53"
    by (simp_all add: isDecimalDigit_def utf16_def magnitude_def)
  have l: "utf16 ''15ms'' = utf16 ''15'' @ utf16 ''ms''" "utf16 ''15s'' = utf16 ''15'' @ utf16 ''s''"
    "utf16 ''15m'' = utf16 ''15'' @ utf16 ''m''"
    by (simp_all add: utf16_def)
  note w = every_string_durations [where ds = "utf16 ''15''" and c = ?c and n = "Num 7"]
  from w d have 1: "every (Str (utf16 ''15ms'')) ?c = ?c\<lparr> timeout := Some (Num 15) \<rparr>"
    unfolding l by (simp del: every.simps)
  from w d have 2: "every (Str (utf16 ''15s'')) ?c = ?c\<lparr> timeout := Some (Num 15000) \<rparr>"
    unfolding l by (simp del: every.simps)
  from w d have 3: "every (Str (utf16 ''15m'')) ?c = ?c\<lparr> timeout := Some (Num 900000) \<rparr>"
    unfolding l by (simp del: every.simps)
  from w have 4: "every (Ms (Num 7)) ?c = ?c\<lparr> timeout := Some (Num 7) \<rparr>"
    by (elim conjE)
  have 5: "timeout ?c = None" by (simp add: new_Repeater_def)
  show ?thesis
    unfolding 1 2 3 4 using d 5 by simp
qed

subsection \<open>C7: how the status moves\<close>

text \<open>
  Claim C7 as stated fails twice. \<open>stop()\<close> on a new instance takes the status from
  \<open>idle\<close> to \<open>complete\<close>, past \<open>running\<close>. And the start of a driver does not reset the
  counter: after \<open>infinite()\<close>, \<open>stop()\<close> and the last resumption of the loop the
  status is \<open>complete\<close>, the loop is finished and the counter is 1, so that
  \<open>repeat(2)\<close> makes its first call with 2.
\<close>

theorem status_transitions_counterexample:
  "status (new_Repeater (\<lambda>n u. Inr u) () 0) = Idle \<and>
   status (perform Stop (new_Repeater (\<lambda>n u. Inr u) () 0)) = Complete \<and>
   \<not> claimed_transition Stop (new_Repeater (\<lambda>n u. Inr u) () 0)
        (perform Stop (new_Repeater (\<lambda>n u. Inr u) () 0)) \<and>
   status (fold perform [Infinite, Stop, Resume 0] (new_Repeater (\<lambda>n u. Inr u) () 0)) = Complete \<and>
   loops (fold perform [Infinite, Stop, Resume 0] (new_Repeater (\<lambda>n u. Inr u) () 0)) = [Finished] \<and>
   calls (events_since (fold perform [Infinite, Stop, Resume 0] (new_Repeater (\<lambda>n u. Inr u) () 0))
        (perform (Repeat 2) (fold perform [Infinite, Stop, Resume 0] (new_Repeater (\<lambda>n u. Inr u) () 0))))
     = [2] \<and>
   \<not> claimed_transition (Repeat 2)
        (fold perform [Infinite, Stop, Resume 0] (new_Repeater (\<lambda>n u. Inr u) () 0))
        (perform (Repeat 2) (fold perform [Infinite, Stop, Resume 0] (new_Repeater (\<lambda>n u. Inr u) () 0)))"
  by (simp add: claimed_transition_def run_defs)

text \<open>
  Claim C7, amended. Take any sequence of calls of the public methods of an
  instance, with the resumptions of its background loops and of its drivers under
  way in between, in any order, and any one step \<open>op\<close> after it. If the step starts
  a driver (\<open>repeat\<close>, \<open>until\<close>, \<open>infinite\<close>), the status is \<open>running\<close> after it and
  \<open>startDate\<close> is overwritten with the time of the call. Any other step leaves the
  status as it is or takes it from \<open>running\<close> to \<open>complete\<close>; so the status never
  returns to \<open>idle\<close> and leaves \<open>complete\<close> only by the start of a driver. The one
  case left open is \<open>stop()\<close> on an instance that is still \<open>idle\<close>. Nothing is said
  of the call counter at the start of a driver.
\<close>

theorem status_transitions:
  "(starts_driver op \<longrightarrow>
      status (perform op (fold perform ops (new_Repeater a u t))) = Running \<and>
      startDate (perform op (fold perform ops (new_Repeater a u t))) =
        Some (clock (fold perform ops (new_Repeater a u t)))) \<and>
   (\<not> starts_driver op \<longrightarrow>
      status (perform op (fold perform ops (new_Repeater a u t))) =
        status (fold perform ops (new_Repeater a u t)) \<or>
      (status (fold perform ops (new_Repeater a u t)) = Running \<and>
       status (perform op (fold perform ops (new_Repeater a u t))) = Complete) \<or>
      (op = Stop \<and> status (fold perform ops (new_Repeater a u t)) = Idle))"
  using perform_step [OF started_fold [OF started_new], of op ops a u t] by simp

theorem status_transitions_witness:
  "starts_driver (Repeat 2 :: int list call) \<and>
   status (fold perform [Infinite, Stop] (new_Repeater (\<lambda>n u. Inr (u @ [n])) [] 0)) = Complete \<and>
   status (perform (Repeat 2) (fold perform [Infinite, Stop] (new_Repeater (\<lambda>n u. Inr (u @ [n])) [] 0)))
     = Running \<and>
   startDate (perform (Repeat 2) (fold perform [Infinite, Stop] (new_Repeater (\<lambda>n u. Inr (u @ [n])) [] 0)))
     = Some 0 \<and>
   \<not> starts_driver (ResumeRun 0 :: int list call) \<and>
   status (fold perform [Repeat 1, ResumeRun 0] (new_Repeater (\<lambda>n u. Inr (u @ [n])) [] 0)) = Running \<and>
   status (perform (ResumeRun 0)
     (fold perform [Repeat 1, ResumeRun 0] (new_Repeater (\<lambda>n u. Inr (u @ [n])) [] 0))) = Complete \<and>
   status (fold perform [Repeat 2, Stop, Infinite, ResumeRun 0, ResumeRun 0, ResumeRun 0]
     (new_Repeater (\<lambda>n u. Inr (u @ [n])) [] 0)) = Complete \<and>
   status (perform (Resume 0) (fold perform [Infinite] (new_Repeater (\<lambda>n u. Inr (u @ [n])) [] 0)))
     = Running"
  using status_transitions [where op = "Repeat 2" and ops = "[Infinite, Stop]"
      and a = "\<lambda>n u. Inr (u @ [n])" and u = "[] :: int list" and t = 0]
    status_transitions [where op = "ResumeRun 0" and ops = "[Repeat 1, ResumeRun 0]"
      and a = "\<lambda>n u. Inr (u @ [n])" and u = "[] :: int list" and t = 0]
    status_transitions [where op = "Resume 0" and ops = "[Infinite]"
      and a = "\<lambda>n u. Inr (u @ [n])" and u = "[] :: int list" and t = 0]
  by (simp add: run_defs)

subsection \<open>C8: an action that throws\<close>

text \<open>
  Claim C8. In a run of \<open>repeat\<close> or \<open>until\<close>, the driver rejects with \<open>e\<close> exactly when
  the action has failed with \<open>e\<close>. The failure is then the last event of the run,
  directly after the call that failed, so no further call is made; \<open>endDate\<close> and
  \<open>runTime\<close> are as they were before the run, and the status stays \<open>running\<close>.
\<close>

theorem action_failure_aborts_run:
  assumes "out = repeat fuel n c \<or> out = until fuel fin c"
  shows "(threw out = Some e \<longleftrightarrow> Raised e \<in> set (events_since c (state_of out))) \<and>
         (Raised e \<in> set (events_since c (state_of out)) \<longrightarrow>
            (\<exists>pre k. events_since c (state_of out) = pre @ [Invoked k, Raised e] \<and>
                     (\<forall>e'. Raised e' \<notin> set pre)) \<and>
            endDate (state_of out) = endDate c \<and> runTime (state_of out) = runTime c \<and>
            status (state_of out) = Running)"
proof -
  let ?c1 = "c\<lparr> status := Running, startDate := Some (clock c) \<rparr>"
  from assms obtain x where ext: "extends ?c1 x" and out: "out = await x complete"
    unfolding repeat_def until_def Let_def
    using repeat_run_extends until_run_extends by blast
  from ext obtain es where es: "trace (state_of x) = trace c @ es"
    and sh: "case threw x of
               None \<Rightarrow> (\<forall>e. Raised e \<notin> set es)
             | Some e \<Rightarrow> (\<exists>pre n. es = pre @ [Invoked n, Raised e] \<and>
                          (\<forall>e'. Raised e' \<notin> set pre))"
    and fr: "frame ?c1 (state_of x)"
    by (auto simp: extends_def)
  from driver_not_Returned [OF ext] have
    th: "threw out = threw x" and tr: "trace (state_of out) = trace (state_of x)"
    and same: "\<not> returned x \<Longrightarrow> out = x"
    by (simp_all add: out)
  have ev: "events_since c (state_of out) = es"
    by (rule events_since_append) (simp add: tr es)
  show ?thesis
  proof (cases "threw x")
    case None
    with sh th show ?thesis by (simp add: ev)
  next
    case (Some e1)
    with sh obtain pre k where p: "es = pre @ [Invoked k, Raised e1]" "\<forall>e'. Raised e' \<notin> set pre"
      by auto
    from Some have "\<not> returned x" by (cases x) simp_all
    then have ox: "out = x" by (rule same)
    have mem: "Raised e \<in> set es \<longleftrightarrow> e = e1" using p by auto
    have "endDate (state_of out) = endDate c \<and> runTime (state_of out) = runTime c \<and>
            status (state_of out) = Running"
      using fr ox by (simp add: frame_def)
    then show ?thesis using p th Some mem by (auto simp: ev)
  qed
qed

theorem action_failure_aborts_run_witness:
  "threw (repeat 5 3 (new_Repeater (\<lambda>n u. if n = 2 then Inl (UserError ''boom'') else Inr (u @ [n])) [] 0))
     = Some (UserError ''boom'') \<and>
   Raised (UserError ''boom'') \<in> set (events_since
     (new_Repeater (\<lambda>n u. if n = 2 then Inl (UserError ''boom'') else Inr (u @ [n])) [] 0)
     (state_of (repeat 5 3 (new_Repeater (\<lambda>n u. if n = 2 then Inl (UserError ''boom'') else Inr (u @ [n])) [] 0)))) \<and>
   endDate (state_of (repeat 5 3 (new_Repeater (\<lambda>n u. if n = 2 then Inl (UserError ''boom'') else Inr (u @ [n])) [] 0)))
     = None \<and>
   runTime (state_of (repeat 5 3 (new_Repeater (\<lambda>n u. if n = 2 then Inl (UserError ''boom'') else Inr (u @ [n])) [] 0)))
     = None \<and>
   status (state_of (repeat 5 3 (new_Repeater (\<lambda>n u. if n = 2 then Inl (UserError ''boom'') else Inr (u @ [n])) [] 0)))
     = Running"
proof -
  let ?c = "new_Repeater (\<lambda>n u. if n = 2 then Inl (UserError ''boom'') else Inr (u @ [n])) [] 0 :: int list system"
  have t: "threw (repeat 5 3 ?c) = Some (UserError ''boom'')"
    by (simp add: run_defs eval_nat_numeral)
  have n: "endDate ?c = None" "runTime ?c = None" by (simp_all add: new_Repeater_def)
  from action_failure_aborts_run [where out = "repeat 5 3 ?c" and fuel = 5 and n = 3 and c = ?c and fin = "Val True" and e = "UserError ''boom''"] t n show ?thesis by simp
qed

subsection \<open>C9: the counter after stop()\<close>

text \<open>
  Claim C9 as stated fails when \<open>stop()\<close> comes during the delay: with a delay of 10
  ms the loop is sleeping when \<open>infinite()\<close> returns; after \<open>stop()\<close> and the
  resumption the loop is finished and the counter is 0, not 1.
\<close>

theorem counter_after_stop_counterexample:
  "loops (infinite_drv (every (Ms (Num 10)) (new_Repeater (\<lambda>n u. Inr u) () 0))) = [Sleeping 10] \<and>
   loops (resume 0 (state_of (stop (infinite_drv (every (Ms (Num 10)) (new_Repeater (\<lambda>n u. Inr u) () 0)))))) = [Finished] \<and>
   repeated (resume 0 (state_of (stop (infinite_drv (every (Ms (Num 10)) (new_Repeater (\<lambda>n u. Inr u) () 0)))))) = 0 \<and>
   repeated (resume 0 (state_of (stop (infinite_drv (every (Ms (Num 10)) (new_Repeater (\<lambda>n u. Inr u) () 0)))))) \<noteq> 1"
  by (simp add: new_Repeater_def infinite_drv_def infinite_run_def infinite_check_def stop_def complete_def
      resume_def sleep_def)

text \<open>
  Claim C9, amended. When \<open>stop()\<close> is called while the loop waits for the action's
  promise and that promise resolves, the loop increments the counter once more, the
  action is not called again, and the counter is 1 when the loop has unwound. When
  the promise rejects, \<open>await run()\<close> is not reached: the loop ends without an
  increment and the counter stays 0. When \<open>stop()\<close> is called while the loop waits in
  its delay, the increment of that iteration came before \<open>stop()\<close> reset the counter:
  the loop ends on resumption and the counter stays 0.
\<close>

theorem counter_after_stop:
  assumes "i < length (loops c0)"
  shows "(loops c0 ! i = Awaiting \<longrightarrow>
            repeated (resume i (state_of (stop c0))) = 1 \<and>
            repeated (resume i (resume i (state_of (stop c0)))) = 1 \<and>
            loops (resume i (resume i (state_of (stop c0)))) ! i = Finished \<and>
            calls (trace (resume i (resume i (state_of (stop c0))))) = calls (trace c0)) \<and>
         (loops c0 ! i = Rejecting e \<longrightarrow>
            repeated (resume i (state_of (stop c0))) = 0 \<and>
            loops (resume i (state_of (stop c0))) ! i = Failed e \<and>
            calls (trace (resume i (state_of (stop c0)))) = calls (trace c0)) \<and>
         (loops c0 ! i = Sleeping t \<longrightarrow>
            repeated (resume i (state_of (stop c0))) = 0 \<and>
            loops (resume i (state_of (stop c0))) ! i = Finished \<and>
            calls (trace (resume i (state_of (stop c0)))) = calls (trace c0))"
proof -
  let ?s = "state_of (stop c0)"
  have st: "stopped ?s" "loops ?s = loops c0" "trace ?s = trace c0" "timeout ?s = timeout c0"
    "repeated ?s = 0"
    using stop_state [of c0] by simp_all
  have i: "i < length (loops ?s)" using assms st by simp
  have 1: "repeated (resume i ?s) = 0 \<and> loops (resume i ?s) ! i = Finished \<and>
            calls (trace (resume i ?s)) = calls (trace c0)"
    if "loops c0 ! i = Sleeping t"
  proof -
    from that st have "loops ?s ! i = Sleeping t" by simp
    from resume_Sleeping_stopped [OF i this st(1)] show ?thesis
      using assms st by (simp add: calls_append)
  qed
  have 2: "repeated (resume i ?s) = 1 \<and>
            repeated (resume i (resume i ?s)) = 1 \<and>
            loops (resume i (resume i ?s)) ! i = Finished \<and>
            calls (trace (resume i (resume i ?s))) = calls (trace c0)"
    if "loops c0 ! i = Awaiting"
  proof -
    from that st have "loops ?s ! i = Awaiting" by simp
    from resume_Awaiting_stopped [OF i this st(1)]
    have r: "resume i ?s = ?s\<lparr> repeated := repeated ?s + 1,
            loops := (loops ?s)[i := (case delay (timeout ?s) of Some t \<Rightarrow> Sleeping t | None \<Rightarrow> Finished)] \<rparr>" .
    show ?thesis
    proof (cases "delay (timeout c0)")
      case None
      have "resume i (resume i ?s) = resume i ?s"
        by (rule resume_over) (simp add: r i None st)
      then show ?thesis using i st by (simp add: r None)
    next
      case (Some t)
      have a: "i < length (loops (resume i ?s))" "loops (resume i ?s) ! i = Sleeping t"
        "stopped (resume i ?s)"
        using i st by (simp_all add: r Some)
      from resume_Sleeping_stopped [OF a] a(1) st show ?thesis
        by (simp add: r calls_append)
    qed
  qed
  have 3: "repeated (resume i ?s) = 0 \<and> loops (resume i ?s) ! i = Failed e \<and>
            calls (trace (resume i ?s)) = calls (trace c0)"
    if "loops c0 ! i = Rejecting e"
  proof -
    from that st have "loops ?s ! i = Rejecting e" by simp
    from resume_Rejecting [OF i this] show ?thesis
      using assms st by (simp add: calls_append)
  qed
  from 1 2 3 show ?thesis by blast
qed

theorem counter_after_stop_witness:
  "0 < length (loops (infinite_drv (new_Repeater (\<lambda>n u. Inr (u @ [n])) [] 0))) \<and>
   loops (infinite_drv (new_Repeater (\<lambda>n u. Inr (u @ [n])) [] 0)) ! 0 = Awaiting \<and>
   repeated (state_of (stop (infinite_drv (new_Repeater (\<lambda>n u. Inr (u @ [n])) [] 0)))) = 0 \<and>
   repeated (resume 0 (resume 0 (state_of (stop (infinite_drv (new_Repeater (\<lambda>n u. Inr (u @ [n])) [] 0)))))) = 1 \<and>
   loops (resume 0 (resume 0 (state_of (stop (infinite_drv (new_Repeater (\<lambda>n u. Inr (u @ [n])) [] 0)))))) ! 0 = Finished \<and>
   loops (infinite_drv (every (Ms (Num 10)) (new_Repeater (\<lambda>n u. Inr (u @ [n])) [] 0))) ! 0 = Sleeping 10 \<and>
   repeated (resume 0 (state_of (stop (infinite_drv (every (Ms (Num 10)) (new_Repeater (\<lambda>n u. Inr (u @ [n])) [] 0)))))) = 0 \<and>
   loops (infinite_drv (new_Repeater (\<lambda>n u. Inl (UserError ''late'')) ([] :: int list) 0)) ! 0 = Rejecting (UserError ''late'') \<and>
   repeated (resume 0 (state_of (stop (infinite_drv (new_Repeater (\<lambda>n u. Inl (UserError ''late'')) ([] :: int list) 0))))) = 0 \<and>
   loops (resume 0 (state_of (stop (infinite_drv (new_Repeater (\<lambda>n u. Inl (UserError ''late'')) ([] :: int list) 0))))) ! 0
     = Failed (UserError ''late'')"
proof -
  let ?c = "infinite_drv (new_Repeater (\<lambda>n u. Inr (u @ [n])) [] 0 :: int list system)"
  let ?d = "infinite_drv (every (Ms (Num 10)) (new_Repeater (\<lambda>n u. Inr (u @ [n])) [] 0 :: int list system))"
  let ?r = "infinite_drv (new_Repeater (\<lambda>n u. Inl (UserError ''late'')) [] 0 :: int list system)"
  have a: "loops ?c = [Awaiting]" by (simp add: run_defs)
  have b: "loops ?d = [Sleeping 10]" by (simp add: run_defs)
  have r: "loops ?r = [Rejecting (UserError ''late'')]" by (simp add: run_defs)
  have z: "repeated (state_of (stop ?c)) = 0" by (simp add: stop_def complete_def Let_def split: option.splits)
  from a have a0: "0 < length (loops ?c)" by simp
  from b have b0: "0 < length (loops ?d)" by simp
  from r have r0: "0 < length (loops ?r)" by simp
  from counter_after_stop [OF a0, where t = 0 and e = TypeError]
    counter_after_stop [OF b0, where t = 10 and e = TypeError]
    counter_after_stop [OF r0, where t = 0 and e = "UserError ''late''"] z show ?thesis
    unfolding a b r by simp
qed

subsection \<open>C10: stop() on a new instance\<close>

text \<open>
  Claim C10. On a new instance the status is \<open>idle\<close> and \<open>startDate\<close> is unassigned;
  \<open>stop()\<close> sets the status to \<open>complete\<close> and then throws a \<open>TypeError\<close>, leaving
  \<open>runTime\<close> unassigned.
\<close>

theorem stop_on_new_Repeater:
  "status (new_Repeater a u t) = Idle \<and> startDate (new_Repeater a u t) = None \<and>
   threw (stop (new_Repeater a u t)) = Some TypeError \<and>
   status (state_of (stop (new_Repeater a u t))) = Complete \<and>
   runTime (state_of (stop (new_Repeater a u t))) = None"
  by (simp add: new_Repeater_def stop_def complete_def)

theorem stop_on_new_Repeater_witness:
  "status (new_Repeater (\<lambda>n u. Inr u) () 0) = Idle \<and>
   threw (stop (new_Repeater (\<lambda>n u. Inr u) () 0)) = Some TypeError \<and>
   status (state_of (stop (new_Repeater (\<lambda>n u. Inr u) () 0))) = Complete \<and>
   runTime (state_of (stop (new_Repeater (\<lambda>n u. Inr u) () 0))) = None"
  using stop_on_new_Repeater [where a = "\<lambda>n u. Inr u" and u = "()" and t = 0] by simp

end
